theory Spec2Isabelle
  imports Complex_Main
begin

section \<open>The compressor pool of the LLMLingua service\<close>

text \<open>
  The development embeds \<^verbatim>\<open>service/compressor_pool.py\<close> (class
  \<^verbatim>\<open>CompressorPool\<close>) and \<^verbatim>\<open>service/models.py\<close>
  (\<^verbatim>\<open>build_compression_params\<close>).

  Conventions of the embedding:
  \<^item> Python integers are \<open>int\<close>; a Python list is a HOL list whose \<^verbatim>\<open>append\<close> adds at
    the end and whose \<^verbatim>\<open>pop()\<close> removes the last element; the Python set
    \<^verbatim>\<open>in_use\<close> is an \<open>int set\<close>.
  \<^item> A method takes the object's state and returns the new state next to its result; an
    exception is the \<open>Inl\<close> branch of the result, and the state returned with it is the
    state the object is left in when the exception propagates.
  \<^item> Every access to the state made under \<^verbatim>\<open>with self.lock\<close> is one atomic step. What the
    other threads do to the pool between two such steps of a polling loop is a parameter
    \<open>others\<close> of the loop: \<open>others k\<close> lists the acquisitions and releases the other
    threads make during the \<open>k\<close>-th sleep. The single-threaded run is \<open>alone\<close>.
  \<^item> \<^verbatim>\<open>update_model\<close> clears and rebuilds the pool without holding the lock. What the other
    threads do to \<^verbatim>\<open>available\<close> and \<^verbatim>\<open>in_use\<close> between two of these statements is a
    parameter \<open>window\<close>; no assumption is made on it. The run in which they do nothing
    there is \<open>quiet\<close>.
  \<^item> Time is a rational number of seconds. \<^verbatim>\<open>time.time()\<close> reads a clock that is threaded
    through \<^verbatim>\<open>get_compressor\<close>. \<^verbatim>\<open>time.sleep(0.1)\<close> promises a lower bound only: how much
    longer an iteration takes, and how much time passes between the two first readings of
    the clock, is a parameter \<open>late\<close> of the loop; no assumption is made on it. The clock
    on which every sleep takes exactly one tenth and nothing else takes time is
    \<open>punctual\<close>.
  \<^item> Logging is not modelled.
\<close>

subsection \<open>Python values\<close>

text \<open>
  A Python float is a finite number, one of the two infinities, or \<^verbatim>\<open>nan\<close>; the finite
  ones are taken as rationals, on which the comparisons of the source are exact. A
  dictionary value is an integer, a float or a string.
\<close>

datatype pyfloat = Finite rat | PosInf | NegInf | NaN

datatype pyval = PyInt int | PyFloat pyfloat | PyStr string

subsection \<open>Workers and their construction\<close>

datatype error = ConstructionError | PoolExhausted | IndexError

text \<open>
  \<^verbatim>\<open>PromptCompressor\<close> comes from the external package \<^verbatim>\<open>lingua\<close>. A worker is opaque
  to the pool: all that is recorded of it are the three arguments it was constructed with.
  Whether a construction raises is decided by the environment: \<open>fails i\<close> says that the
  construction made for slot \<open>i\<close> raises.
\<close>

datatype worker = PromptCompressor (w_model_name: string) (w_device_map: string) (w_use_llmlingua2: bool)

definition new_PromptCompressor :: "(int \<Rightarrow> bool) \<Rightarrow> int \<Rightarrow> string \<Rightarrow> string \<Rightarrow> bool \<Rightarrow> error + worker" where
  "new_PromptCompressor fails i m d u =
     (if fails i then Inl ConstructionError else Inr (PromptCompressor m d u))"

subsection \<open>The pool object\<close>

record CompressorPool =
  pool_size :: int
  model_name :: string
  device_map :: string
  use_llmlingua2 :: bool
  pool :: "worker list"
  available :: "int list"
  in_use :: "int set"

text \<open>Python's \<^verbatim>\<open>xs[i]\<close>: a negative index counts from the end, anything else out of range raises.\<close>

definition getitem :: "'a list \<Rightarrow> int \<Rightarrow> error + 'a" where
  "getitem xs i =
     (if 0 \<le> i \<and> i < int (length xs) then Inr (xs ! nat i)
      else if i < 0 \<and> - int (length xs) \<le> i then Inr (xs ! nat (int (length xs) + i))
      else Inl IndexError)"

subsubsection \<open>\<^verbatim>\<open>_initialize_pool\<close> and \<^verbatim>\<open>__init__\<close>\<close>

text \<open>
  The loop \<^verbatim>\<open>for i in range(self.pool_size)\<close>. A raising construction leaves the loop at
  once; the \<^verbatim>\<open>except\<close> clause logs and re-raises, so the object keeps what the earlier
  iterations appended.
\<close>

fun init_loop :: "(int \<Rightarrow> bool) \<Rightarrow> int list \<Rightarrow> CompressorPool \<Rightarrow> (error + unit) \<times> CompressorPool" where
  "init_loop fails [] s = (Inr (), s)"
| "init_loop fails (i # rest) s =
     (case new_PromptCompressor fails i (model_name s) (device_map s) (use_llmlingua2 s) of
        Inl e \<Rightarrow> (Inl e, s)
      | Inr compressor \<Rightarrow>
          init_loop fails rest (s\<lparr>pool := pool s @ [compressor], available := available s @ [i]\<rparr>))"

definition initialize_pool :: "(int \<Rightarrow> bool) \<Rightarrow> CompressorPool \<Rightarrow> (error + unit) \<times> CompressorPool" where
  "initialize_pool fails s = init_loop fails [0..pool_size s - 1] s"

text \<open>
  The constructor. When \<^verbatim>\<open>_initialize_pool\<close> raises, the exception leaves
  \<^verbatim>\<open>__init__\<close> and the caller gets no object.
\<close>

definition fresh :: "int \<Rightarrow> string \<Rightarrow> string \<Rightarrow> bool \<Rightarrow> CompressorPool" where
  "fresh n m d u =
     \<lparr>pool_size = n, model_name = m, device_map = d, use_llmlingua2 = u,
      pool = [], available = [], in_use = {}\<rparr>"

definition CompressorPool_init :: "(int \<Rightarrow> bool) \<Rightarrow> int \<Rightarrow> string \<Rightarrow> string \<Rightarrow> bool \<Rightarrow> error + CompressorPool" where
  "CompressorPool_init fails n m d u =
     (case initialize_pool fails (fresh n m d u) of
        (Inl e, s) \<Rightarrow> Inl e
      | (Inr _, s) \<Rightarrow> Inr s)"

subsubsection \<open>\<^verbatim>\<open>get_compressor\<close> and \<^verbatim>\<open>release_compressor\<close>\<close>

text \<open>The body of \<^verbatim>\<open>with self.lock\<close> once \<^verbatim>\<open>self.available\<close> is known to be non-empty.\<close>

definition take_instance :: "CompressorPool \<Rightarrow> (error + worker \<times> int) \<times> CompressorPool" where
  "take_instance s =
     (let instance_id = last (available s);
          s' = s\<lparr>available := butlast (available s), in_use := insert instance_id (in_use s)\<rparr>
      in (case getitem (pool s') instance_id of
            Inl e \<Rightarrow> (Inl e, s')
          | Inr w \<Rightarrow> (Inr (w, instance_id), s')))"

definition release_compressor :: "int \<Rightarrow> CompressorPool \<Rightarrow> CompressorPool" where
  "release_compressor instance_id s =
     (if instance_id \<in> in_use s
      then s\<lparr>in_use := in_use s - {instance_id}, available := available s @ [instance_id]\<rparr>
      else s)"

text \<open>
  What another thread can do to the pool while this one sleeps: the locked step of its own
  \<^verbatim>\<open>get_compressor\<close> (which takes an instance when one is available and changes nothing
  otherwise) or a \<^verbatim>\<open>release_compressor\<close>.
\<close>

datatype event = Takes | Gives int

fun occur :: "event \<Rightarrow> CompressorPool \<Rightarrow> CompressorPool" where
  "occur Takes s = (if available s \<noteq> [] then snd (take_instance s) else s)"
| "occur (Gives i) s = release_compressor i s"

fun interfere :: "event list \<Rightarrow> CompressorPool \<Rightarrow> CompressorPool" where
  "interfere [] s = s"
| "interfere (e # es) s = interfere es (occur e s)"

definition alone :: "nat \<Rightarrow> event list" where
  "alone k = []"

text \<open>
  The polling loop. \<open>start\<close> is \<^verbatim>\<open>start_time\<close>, \<open>now\<close> the reading of the clock at the
  loop test, \<open>k\<close> counts the sleeps made so far. An iteration that finds nothing
  available lasts one tenth of a second and \<open>late (Suc k)\<close> more (the wait for the lock,
  the locked step, the time by which \<^verbatim>\<open>time.sleep\<close> overshoots); a negative lateness
  counts as none. The result carries the state and the reading of the clock at the last
  loop test.
\<close>

function poll :: "(nat \<Rightarrow> event list) \<Rightarrow> (nat \<Rightarrow> rat) \<Rightarrow> rat \<Rightarrow> rat \<Rightarrow> nat \<Rightarrow> rat \<Rightarrow> CompressorPool
    \<Rightarrow> (error + worker \<times> int) \<times> CompressorPool \<times> rat" where
  "poll others late start timeout k now s =
     (if now - start < timeout then
        (if available s \<noteq> [] then
           (case take_instance s of (r, s') \<Rightarrow> (r, s', now))
         else poll others late start timeout (Suc k) (now + 1 / 10 + max 0 (late (Suc k)))
                (interfere (others k) s))
      else (Inl PoolExhausted, s, now))"
  by pat_completeness auto
termination
proof (relation "measure (\<lambda>(others, late, start, timeout, k, now, s).
                    nat \<lceil>(timeout - (now - start)) * 10\<rceil>)")
  show "wf (measure (\<lambda>(others :: nat \<Rightarrow> event list, late :: nat \<Rightarrow> rat, start :: rat, timeout :: rat,
      k :: nat, now :: rat, s :: CompressorPool). nat \<lceil>(timeout - (now - start)) * 10\<rceil>))"
    by simp
next
  fix others :: "nat \<Rightarrow> event list" and late :: "nat \<Rightarrow> rat" and start timeout now :: rat
    and k :: nat and s :: CompressorPool
  assume run: "now - start < timeout"
  have shift: "(timeout - (now + 1 / 10 + max 0 (late (Suc k)) - start)) * 10
                 \<le> (timeout - (now - start)) * 10 - 1"
    by (simp add: algebra_simps)
  have pos: "0 < \<lceil>(timeout - (now - start)) * 10\<rceil>"
    using run by simp
  have "\<lceil>(timeout - (now + 1 / 10 + max 0 (late (Suc k)) - start)) * 10\<rceil>
          \<le> \<lceil>(timeout - (now - start)) * 10 - 1\<rceil>"
    by (rule ceiling_mono [OF shift])
  also have "\<dots> = \<lceil>(timeout - (now - start)) * 10\<rceil> - 1"
    by simp
  finally have "\<lceil>(timeout - (now + 1 / 10 + max 0 (late (Suc k)) - start)) * 10\<rceil>
          \<le> \<lceil>(timeout - (now - start)) * 10\<rceil> - 1" .
  with pos show "((others, late, start, timeout, Suc k, now + 1 / 10 + max 0 (late (Suc k)),
                   interfere (others k) s),
                  (others, late, start, timeout, k, now, s))
      \<in> measure (\<lambda>(others, late, start, timeout, k, now, s).
                    nat \<lceil>(timeout - (now - start)) * 10\<rceil>)"
    by simp
qed

text \<open>
  \<^verbatim>\<open>start_time = time.time()\<close> is the reading \<open>now\<close>; the first loop test reads the clock
  again, \<open>late 0\<close> later.
\<close>

definition get_compressor :: "(nat \<Rightarrow> event list) \<Rightarrow> (nat \<Rightarrow> rat) \<Rightarrow> rat \<Rightarrow> rat \<Rightarrow> CompressorPool
    \<Rightarrow> (error + worker \<times> int) \<times> CompressorPool \<times> rat" where
  "get_compressor others late timeout now s =
     poll others late now timeout 0 (now + max 0 (late 0)) s"

definition punctual :: "nat \<Rightarrow> rat" where
  "punctual k = 0"

text \<open>
  The reading of the clock at the loop test made after \<open>j\<close> more sleeps, \<open>k\<close> sleeps
  having been made and the clock reading \<open>now\<close>.
\<close>

fun reading :: "(nat \<Rightarrow> rat) \<Rightarrow> nat \<Rightarrow> nat \<Rightarrow> rat \<Rightarrow> rat" where
  "reading late k 0 now = now"
| "reading late k (Suc j) now = reading late (Suc k) j (now + 1 / 10 + max 0 (late (Suc k)))"

text \<open>The pool as the poll made after \<open>j\<close> more sleeps finds it, \<open>k\<close> sleeps having been made.\<close>

fun seen :: "(nat \<Rightarrow> event list) \<Rightarrow> nat \<Rightarrow> nat \<Rightarrow> CompressorPool \<Rightarrow> CompressorPool" where
  "seen others k 0 s = s"
| "seen others k (Suc j) s = seen others (Suc k) j (interfere (others k) s)"

subsubsection \<open>\<^verbatim>\<open>update_model\<close>, \<^verbatim>\<open>get_status\<close>, \<^verbatim>\<open>cleanup\<close>\<close>

text \<open>
  The loop \<^verbatim>\<open>while True\<close> of \<^verbatim>\<open>update_model\<close> has no timeout and reads no clock: it
  returns only when a poll finds \<^verbatim>\<open>in_use\<close> empty. Not returning is the value \<open>None\<close>.
\<close>

partial_function (option) wait_released :: "(nat \<Rightarrow> event list) \<Rightarrow> nat \<Rightarrow> CompressorPool
    \<Rightarrow> CompressorPool option" where
  "wait_released others k s =
     (if in_use s = {} then Some s
      else wait_released others (Suc k) (interfere (others k) s))"

text \<open>The two conditional assignments that open \<^verbatim>\<open>update_model\<close>.\<close>

definition set_config :: "string option \<Rightarrow> string option \<Rightarrow> CompressorPool \<Rightarrow> CompressorPool" where
  "set_config new_model_name new_device_map s =
     (let s1 = (case new_model_name of None \<Rightarrow> s | Some m \<Rightarrow> s\<lparr>model_name := m\<rparr>)
      in (case new_device_map of None \<Rightarrow> s1 | Some d \<Rightarrow> s1\<lparr>device_map := d\<rparr>))"

text \<open>
  The statements after the wait loop run without the lock, so between any two of them the
  other threads may be anywhere in their own \<^verbatim>\<open>get_compressor\<close> and
  \<^verbatim>\<open>release_compressor\<close>. These write \<^verbatim>\<open>available\<close> and \<^verbatim>\<open>in_use\<close> and nothing else of
  the pool. \<open>disturb f\<close> lets them replace the two collections by what \<open>f\<close> makes of the
  pool; \<open>f\<close> is arbitrary, which covers every interleaving.
\<close>

definition disturb :: "(CompressorPool \<Rightarrow> CompressorPool) \<Rightarrow> CompressorPool \<Rightarrow> CompressorPool" where
  "disturb f s = s\<lparr>available := available (f s), in_use := in_use (f s)\<rparr>"

definition quiet :: "nat \<Rightarrow> CompressorPool \<Rightarrow> CompressorPool" where
  "quiet k s = s"

text \<open>
  \<^verbatim>\<open>_initialize_pool\<close> as \<^verbatim>\<open>update_model\<close> runs it, among the other threads: \<open>window k\<close> is
  what they do after the append to \<^verbatim>\<open>pool\<close>, \<open>window (Suc k)\<close> what they do after the
  append to \<^verbatim>\<open>available\<close>.
\<close>

fun init_loop_among :: "(nat \<Rightarrow> CompressorPool \<Rightarrow> CompressorPool) \<Rightarrow> nat \<Rightarrow> (int \<Rightarrow> bool) \<Rightarrow> int list
    \<Rightarrow> CompressorPool \<Rightarrow> (error + unit) \<times> CompressorPool" where
  "init_loop_among window k fails [] s = (Inr (), s)"
| "init_loop_among window k fails (i # rest) s =
     (case new_PromptCompressor fails i (model_name s) (device_map s) (use_llmlingua2 s) of
        Inl e \<Rightarrow> (Inl e, s)
      | Inr compressor \<Rightarrow>
          (let s1 = disturb (window k) (s\<lparr>pool := pool s @ [compressor]\<rparr>);
               s2 = disturb (window (Suc k)) (s1\<lparr>available := available s1 @ [i]\<rparr>)
           in init_loop_among window (Suc (Suc k)) fails rest s2))"

text \<open>
  The three \<^verbatim>\<open>clear()\<close> calls and the call of \<^verbatim>\<open>_initialize_pool\<close> that end
  \<^verbatim>\<open>update_model\<close>. \<open>window 0\<close> is what the other threads do between the last test of
  the wait loop and \<^verbatim>\<open>self.pool.clear()\<close>, \<open>window 1\<close>, \<open>window 2\<close> and \<open>window 3\<close> what
  they do after each of the three \<^verbatim>\<open>clear()\<close> calls.
\<close>

definition rebuild :: "(nat \<Rightarrow> CompressorPool \<Rightarrow> CompressorPool) \<Rightarrow> (int \<Rightarrow> bool) \<Rightarrow> CompressorPool
    \<Rightarrow> (error + unit) \<times> CompressorPool" where
  "rebuild window fails s =
     (let s1 = disturb (window 0) s;
          s2 = disturb (window 1) (s1\<lparr>pool := []\<rparr>);
          s3 = disturb (window 2) (s2\<lparr>available := []\<rparr>);
          s4 = disturb (window 3) (s3\<lparr>in_use := {}\<rparr>)
      in init_loop_among window 4 fails [0..pool_size s4 - 1] s4)"

definition update_model :: "(nat \<Rightarrow> event list) \<Rightarrow> (nat \<Rightarrow> CompressorPool \<Rightarrow> CompressorPool) \<Rightarrow> (int \<Rightarrow> bool)
    \<Rightarrow> string option \<Rightarrow> string option \<Rightarrow> CompressorPool \<Rightarrow> ((error + unit) \<times> CompressorPool) option" where
  "update_model others window fails new_model_name new_device_map s =
     (case wait_released others 0 (set_config new_model_name new_device_map s) of
        None \<Rightarrow> None
      | Some s3 \<Rightarrow> Some (rebuild window fails s3))"

definition cleared :: "CompressorPool \<Rightarrow> CompressorPool" where
  "cleared s = s\<lparr>pool := [], available := [], in_use := {}\<rparr>"

definition get_status :: "CompressorPool \<Rightarrow> (string \<times> pyval) list \<times> CompressorPool" where
  "get_status s =
     ([(''pool_size'', PyInt (pool_size s)),
       (''available'', PyInt (int (length (available s)))),
       (''in_use'', PyInt (int (card (in_use s)))),
       (''model_name'', PyStr (model_name s)),
       (''device_map'', PyStr (device_map s))], s)"

definition cleanup :: "CompressorPool \<Rightarrow> CompressorPool" where
  "cleanup s = cleared s"

subsection \<open>Sequences of calls\<close>

text \<open>
  A sequence of calls made one after the other on the pool, with the clock; an
  acquisition comes with its timeout and the lateness of its clock. The history pairs
  every call with what it returned or raised.
\<close>

datatype call = Acquire rat "nat \<Rightarrow> rat" | Release int

datatype outcome = Got worker int | Raised error | Done

fun step :: "call \<Rightarrow> rat \<times> CompressorPool \<Rightarrow> outcome \<times> rat \<times> CompressorPool" where
  "step (Acquire timeout late) (now, s) =
     (case get_compressor alone late timeout now s of
        (Inr (w, i), s', now') \<Rightarrow> (Got w i, now', s')
      | (Inl e, s', now') \<Rightarrow> (Raised e, now', s'))"
| "step (Release i) (now, s) = (Done, now, release_compressor i s)"

fun final :: "call list \<Rightarrow> rat \<times> CompressorPool \<Rightarrow> rat \<times> CompressorPool" where
  "final [] w = w"
| "final (c # cs) w = final cs (snd (step c w))"

fun history :: "call list \<Rightarrow> rat \<times> CompressorPool \<Rightarrow> (call \<times> outcome) list" where
  "history [] w = []"
| "history (c # cs) w = (c, fst (step c w)) # history cs (snd (step c w))"

text \<open>
  The tickets outstanding after a history, read from the history alone: a successful
  acquire adds the index it returned, a release removes one occurrence of its index.
\<close>

fun holders :: "int list \<Rightarrow> (call \<times> outcome) list \<Rightarrow> int list" where
  "holders held [] = held"
| "holders held ((Acquire timeout late, Got w i) # h) = holders (i # held) h"
| "holders held ((Acquire timeout late, r) # h) = holders held h"
| "holders held ((Release i, r) # h) = holders (remove1 i held) h"

text \<open>The workers a history handed out.\<close>

fun handed_out :: "(call \<times> outcome) list \<Rightarrow> worker list" where
  "handed_out [] = []"
| "handed_out ((c, Got w i) # h) = w # handed_out h"
| "handed_out ((c, r) # h) = handed_out h"

subsection \<open>The pool invariant\<close>

definition pool_inv :: "CompressorPool \<Rightarrow> bool" where
  "pool_inv s \<longleftrightarrow>
     0 \<le> pool_size s \<and> length (pool s) = nat (pool_size s) \<and>
     distinct (available s) \<and> set (available s) \<inter> in_use s = {} \<and>
     set (available s) \<union> in_use s = {0..pool_size s - 1}"

section \<open>Request parameters\<close>

record CompressRequest =
  prompts :: "string list option"
  rate :: "pyfloat option"
  target_token :: "int option"
  target_context_level_rate :: "pyfloat option"
  context_level_rate :: "pyfloat option"
  context_level_target_token :: "int option"
  chunk_end_tokens :: "string option"
  query :: "string option"

text \<open>
  Comparison of Python floats: \<^verbatim>\<open>nan\<close> compares false with everything, the infinities
  lie outside the finite values.
\<close>

fun float_less :: "pyfloat \<Rightarrow> pyfloat \<Rightarrow> bool" where
  "float_less NaN y = False"
| "float_less x NaN = False"
| "float_less (Finite a) (Finite b) = (a < b)"
| "float_less (Finite a) PosInf = True"
| "float_less (Finite a) NegInf = False"
| "float_less PosInf y = False"
| "float_less NegInf NegInf = False"
| "float_less NegInf y = True"

definition float_le :: "pyfloat \<Rightarrow> pyfloat \<Rightarrow> bool" where
  "float_le x y \<longleftrightarrow> float_less x y \<or> (x = y \<and> x \<noteq> NaN)"

text \<open>\<^verbatim>\<open>params[key] = value\<close> on a dictionary kept in insertion order.\<close>

fun setitem :: "'k \<Rightarrow> 'v \<Rightarrow> ('k \<times> 'v) list \<Rightarrow> ('k \<times> 'v) list" where
  "setitem k v [] = [(k, v)]"
| "setitem k v ((k', v') # kvs) = (if k' = k then (k, v) # kvs else (k', v') # setitem k v kvs)"

text \<open>
  The six conditional assignments of \<^verbatim>\<open>build_compression_params\<close>, in the order of the
  source. A chained comparison \<^verbatim>\<open>0 < x <= 1\<close> is the conjunction of its two parts.
\<close>

definition add_rate :: "CompressRequest \<Rightarrow> (string \<times> pyval) list \<Rightarrow> (string \<times> pyval) list" where
  "add_rate request params =
     (case rate request of
        Some r \<Rightarrow> if float_less (Finite 0) r \<and> float_le r (Finite 1)
                  then setitem ''rate'' (PyFloat r) params else params
      | None \<Rightarrow> params)"

definition add_target_token :: "CompressRequest \<Rightarrow> (string \<times> pyval) list \<Rightarrow> (string \<times> pyval) list" where
  "add_target_token request params =
     (case target_token request of
        Some n \<Rightarrow> if n > 0 then setitem ''target_token'' (PyInt n) params else params
      | None \<Rightarrow> params)"

definition add_target_context_level_rate :: "CompressRequest \<Rightarrow> (string \<times> pyval) list \<Rightarrow> (string \<times> pyval) list" where
  "add_target_context_level_rate request params =
     (case target_context_level_rate request of
        Some r \<Rightarrow> if float_less (Finite 0) r
                  then setitem ''target_context_level_rate'' (PyFloat r) params else params
      | None \<Rightarrow> params)"

definition add_context_level_rate :: "CompressRequest \<Rightarrow> (string \<times> pyval) list \<Rightarrow> (string \<times> pyval) list" where
  "add_context_level_rate request params =
     (case context_level_rate request of
        Some r \<Rightarrow> if float_less (Finite 0) r \<and> float_le r (Finite 1)
                  then setitem ''context_level_rate'' (PyFloat r) params else params
      | None \<Rightarrow> params)"

definition add_context_level_target_token :: "CompressRequest \<Rightarrow> (string \<times> pyval) list \<Rightarrow> (string \<times> pyval) list" where
  "add_context_level_target_token request params =
     (case context_level_target_token request of
        Some n \<Rightarrow> if n > 0 then setitem ''context_level_target_token'' (PyInt n) params else params
      | None \<Rightarrow> params)"

definition add_chunk_end_tokens :: "CompressRequest \<Rightarrow> (string \<times> pyval) list \<Rightarrow> (string \<times> pyval) list" where
  "add_chunk_end_tokens request params =
     (case chunk_end_tokens request of
        Some c \<Rightarrow> if c \<noteq> [] then setitem ''chunk_end_tokens'' (PyStr c) params else params
      | None \<Rightarrow> params)"

definition build_compression_params :: "CompressRequest \<Rightarrow> (string \<times> pyval) list" where
  "build_compression_params request =
     (let params = [];
          params = add_rate request params;
          params = add_target_token request params;
          params = add_target_context_level_rate request params;
          params = add_context_level_rate request params;
          params = add_context_level_target_token request params;
          params = add_chunk_end_tokens request params
      in params)"

section \<open>Example environments and pools\<close>

text \<open>
  Concrete environments and pools on which the theorems below are instantiated: an
  environment in which no construction fails, one in which the construction for slot \<open>k\<close>
  fails, and other threads that release index \<open>i\<close> during sleep \<open>k0\<close> and do nothing else.
\<close>

definition never_fails :: "int \<Rightarrow> bool" where
  [simp]: "never_fails i = False"

definition fails_at :: "int \<Rightarrow> int \<Rightarrow> bool" where
  [simp]: "fails_at k i \<longleftrightarrow> i = k"

definition gives_during :: "nat \<Rightarrow> int \<Rightarrow> nat \<Rightarrow> event list" where
  [simp]: "gives_during k0 i k = (if k = k0 then [Gives i] else [])"


text \<open>
  Another thread that acquires an instance between the last test of the wait loop and
  \<^verbatim>\<open>self.pool.clear()\<close> and releases index \<open>i\<close> between \<^verbatim>\<open>self.available.clear()\<close> and
  \<^verbatim>\<open>self.in_use.clear()\<close>.
\<close>

definition takes_then_gives :: "int \<Rightarrow> nat \<Rightarrow> CompressorPool \<Rightarrow> CompressorPool" where
  [simp]: "takes_then_gives i k s =
     (if k = 0 then interfere [Takes] s else if k = 2 then interfere [Gives i] s else s)"

abbreviation worker0 :: worker where
  "worker0 \<equiv> PromptCompressor ''m'' ''cpu'' True"

abbreviation pool2 :: CompressorPool where
  "pool2 \<equiv> \<lparr>pool_size = 2, model_name = ''m'', device_map = ''cpu'', use_llmlingua2 = True,
             pool = [worker0, worker0], available = [0, 1], in_use = {}\<rparr>"

abbreviation pool2_taken :: CompressorPool where
  "pool2_taken \<equiv> \<lparr>pool_size = 2, model_name = ''m'', device_map = ''cpu'', use_llmlingua2 = True,
             pool = [worker0, worker0], available = [0], in_use = {1}\<rparr>"

abbreviation pool1_busy :: CompressorPool where
  "pool1_busy \<equiv> \<lparr>pool_size = 1, model_name = ''m'', device_map = ''cpu'', use_llmlingua2 = True,
             pool = [worker0], available = [], in_use = {0}\<rparr>"

abbreviation pool4_one_taken :: CompressorPool where
  "pool4_one_taken \<equiv>
     \<lparr>pool_size = 4, model_name = ''m'', device_map = ''cpu'', use_llmlingua2 = True,
      pool = [worker0, worker0, worker0, worker0], available = [0, 1, 2], in_use = {3}\<rparr>"

abbreviation worker1 :: worker where
  "worker1 \<equiv> PromptCompressor ''m2'' ''cpu'' True"

abbreviation pool2_new :: CompressorPool where
  "pool2_new \<equiv> \<lparr>pool_size = 2, model_name = ''m2'', device_map = ''cpu'', use_llmlingua2 = True,
             pool = [worker1, worker1], available = [0, 1], in_use = {}\<rparr>"

section \<open>Properties of the pool\<close>

subsection \<open>Auxiliary facts\<close>

lemma init_loop_ok:
  "\<forall>i\<in>set ixs. \<not> fails i \<Longrightarrow>
   init_loop fails ixs s =
     (Inr (), s\<lparr>pool := pool s @ replicate (length ixs)
                       (PromptCompressor (model_name s) (device_map s) (use_llmlingua2 s)),
               available := available s @ ixs\<rparr>)"
proof (induction ixs arbitrary: s)
  case Nil
  then show ?case by simp
next
  case (Cons i ixs)
  then show ?case
    by (simp add: new_PromptCompressor_def replicate_append_same)
qed

lemma init_loop_fail:
  "\<forall>i\<in>set pre. \<not> fails i \<Longrightarrow> fails k \<Longrightarrow>
   init_loop fails (pre @ k # post) s =
     (Inl ConstructionError,
      s\<lparr>pool := pool s @ replicate (length pre)
                       (PromptCompressor (model_name s) (device_map s) (use_llmlingua2 s)),
        available := available s @ pre\<rparr>)"
proof (induction pre arbitrary: s)
  case Nil
  then show ?case by (simp add: new_PromptCompressor_def)
next
  case (Cons i pre)
  then show ?case
    by (simp add: new_PromptCompressor_def replicate_append_same)
qed

lemma init_loop_Inr_none_fail:
  "init_loop fails ixs s = (Inr u, s') \<Longrightarrow> \<forall>i\<in>set ixs. \<not> fails i"
  by (induction ixs arbitrary: s) (auto simp: new_PromptCompressor_def split: if_splits)

lemma take_instance_state:
  "snd (take_instance s) =
     s\<lparr>available := butlast (available s), in_use := insert (last (available s)) (in_use s)\<rparr>"
  by (simp add: take_instance_def Let_def split: sum.splits)

lemma pool_inv_take:
  assumes "pool_inv s" "available s \<noteq> []"
  shows "pool_inv (snd (take_instance s))"
proof -
  obtain xs x where xs: "available s = xs @ [x]"
    using assms(2) by (metis rev_exhaust)
  show ?thesis
    using assms(1) unfolding take_instance_state pool_inv_def xs by auto
qed

lemma take_instance_result:
  assumes "pool_inv s" "available s \<noteq> []"
  shows "fst (take_instance s) = Inr (pool s ! nat (last (available s)), last (available s))"
proof -
  have "last (available s) \<in> set (available s)" using assms(2) by simp
  then have "last (available s) \<in> {0..pool_size s - 1}"
    using assms(1) unfolding pool_inv_def by blast
  then show ?thesis
    using assms(1) by (simp add: take_instance_def Let_def getitem_def pool_inv_def)
qed

lemma pool_inv_release: "pool_inv s \<Longrightarrow> pool_inv (release_compressor i s)"
  unfolding release_compressor_def pool_inv_def by auto

lemma pool_inv_occur: "pool_inv s \<Longrightarrow> pool_inv (occur e s)"
  by (cases e) (simp_all add: pool_inv_take pool_inv_release)

lemma pool_inv_interfere: "pool_inv s \<Longrightarrow> pool_inv (interfere es s)"
  by (induction es arbitrary: s) (simp_all add: pool_inv_occur)

lemma pool_inv_seen: "pool_inv s \<Longrightarrow> pool_inv (seen others k j s)"
  by (induction j arbitrary: k s) (simp_all add: pool_inv_interfere)

lemma pool_inv_count:
  assumes "pool_inv s"
  shows "int (length (available s)) + int (card (in_use s)) = pool_size s"
proof -
  have un: "set (available s) \<union> in_use s = {0..pool_size s - 1}"
    and disj: "set (available s) \<inter> in_use s = {}"
    and dist: "distinct (available s)" and nonneg: "0 \<le> pool_size s"
    using assms unfolding pool_inv_def by blast+
  have "finite (set (available s) \<union> in_use s)"
    unfolding un by simp
  then have fin: "finite (in_use s)" by simp
  have "card (set (available s) \<union> in_use s) = card (set (available s)) + card (in_use s)"
    by (rule card_Un_disjoint [OF finite_set fin disj])
  moreover have "card (set (available s)) = length (available s)"
    by (rule distinct_card [OF dist])
  moreover have "card (set (available s) \<union> in_use s) = nat (pool_size s)"
    unfolding un by simp
  ultimately have "length (available s) + card (in_use s) = nat (pool_size s)"
    by simp
  then show ?thesis
    using nonneg by linarith
qed


lemma poll_cases:
  "poll others late start timeout k now s = (r, s', now') \<Longrightarrow>
   \<exists>j. now' = reading late k j now \<and>
       (\<forall>j'<j. available (seen others k j' s) = [] \<and> reading late k j' now - start < timeout) \<and>
       (if now' - start < timeout
        then available (seen others k j s) \<noteq> [] \<and> (r, s') = take_instance (seen others k j s)
        else r = Inl PoolExhausted \<and> s' = seen others k j s)"
proof (induction others late start timeout k now s rule: poll.induct)
  case (1 others late start timeout k now s)
  show ?case
  proof (cases "now - start < timeout")
    case False
    then have "r = Inl PoolExhausted" "s' = s" "now' = now"
      using "1.prems" by simp_all
    then show ?thesis
      using False by (intro exI [of _ 0]) simp
  next
    case running: True
    show ?thesis
    proof (cases "available s = []")
      case False
      then have "(r, s') = take_instance s" "now' = now"
        using "1.prems" running by (auto split: prod.splits)
      then show ?thesis
        using False running by (intro exI [of _ 0]) simp
    next
      case True
      let ?next = "now + 1 / 10 + max 0 (late (Suc k))"
      have rec: "poll others late start timeout (Suc k) ?next (interfere (others k) s) = (r, s', now')"
        using "1.prems" running True by simp
      have none: "\<not> available s \<noteq> []" using True by simp
      from "1.IH" [OF running none rec] obtain j where
        t: "now' = reading late (Suc k) j ?next"
        and before: "\<forall>j'<j. available (seen others (Suc k) j' (interfere (others k) s)) = [] \<and>
                  reading late (Suc k) j' ?next - start < timeout"
        and at: "if now' - start < timeout
                 then available (seen others (Suc k) j (interfere (others k) s)) \<noteq> [] \<and>
                      (r, s') = take_instance (seen others (Suc k) j (interfere (others k) s))
                 else r = Inl PoolExhausted \<and> s' = seen others (Suc k) j (interfere (others k) s)"
        by blast
      have "now' = reading late k (Suc j) now"
        using t by simp
      moreover have "\<forall>j'<Suc j. available (seen others k j' s) = [] \<and>
                        reading late k j' now - start < timeout"
      proof (intro allI impI)
        fix j' assume "j' < Suc j"
        show "available (seen others k j' s) = [] \<and> reading late k j' now - start < timeout"
        proof (cases j')
          case 0
          then show ?thesis using True running by simp
        next
          case (Suc i)
          then have "i < j" using \<open>j' < Suc j\<close> by simp
          then show ?thesis
            using before Suc by simp
        qed
      qed
      ultimately show ?thesis
        using at by (intro exI [of _ "Suc j"]) simp
    qed
  qed
qed



lemma reading_punctual:
  "\<forall>k. late k \<le> 0 \<Longrightarrow> reading late k j now = now + of_nat j / 10"
proof (induction j arbitrary: k now)
  case 0
  then show ?case by simp
next
  case (Suc j)
  have "late (Suc k) \<le> 0" using Suc.prems by blast
  then have "max 0 (late (Suc k)) = 0" by (simp add: max_def)
  then show ?case using Suc.IH [OF Suc.prems] by (simp add: field_simps)
qed

lemma seen_alone: "seen alone k j s = s"
  by (induction j arbitrary: k) (simp_all add: alone_def)

lemma wait_released_returns:
  "in_use (seen others k j s) = {} \<Longrightarrow> \<forall>j'<j. in_use (seen others k j' s) \<noteq> {} \<Longrightarrow>
   wait_released others k s = Some (seen others k j s)"
proof (induction j arbitrary: k s)
  case 0
  then show ?case by (simp add: wait_released.simps)
next
  case (Suc j)
  have busy: "in_use s \<noteq> {}"
    using Suc.prems(2) [rule_format, of 0] by simp
  have later: "\<forall>j'<j. in_use (seen others (Suc k) j' (interfere (others k) s)) \<noteq> {}"
    using Suc.prems(2) by (metis Suc_less_eq seen.simps(2))
  have "wait_released others (Suc k) (interfere (others k) s)
          = Some (seen others (Suc k) j (interfere (others k) s))"
    using Suc.IH [OF _ later] Suc.prems(1) by simp
  then show ?case
    using busy by (subst wait_released.simps) simp
qed

lemma wait_released_cases:
  assumes "wait_released others k s = Some y"
  shows "\<exists>j. y = seen others k j s \<and> in_use (seen others k j s) = {} \<and>
       (\<forall>j'<j. in_use (seen others k j' s) \<noteq> {})"
proof (rule wait_released.raw_induct
    [where P = "\<lambda>others k s y. \<exists>j. y = seen others k j s \<and>
                  in_use (seen others k j s) = {} \<and> (\<forall>j'<j. in_use (seen others k j' s) \<noteq> {})",
     OF _ assms])
  fix wait :: "(nat \<Rightarrow> event list) \<Rightarrow> nat \<Rightarrow> CompressorPool \<Rightarrow> CompressorPool option"
    and others k s y
  assume IH: "\<And>others' k' s' y'. wait others' k' s' = Some y' \<Longrightarrow>
      \<exists>j. y' = seen others' k' j s' \<and> in_use (seen others' k' j s') = {} \<and>
          (\<forall>j'<j. in_use (seen others' k' j' s') \<noteq> {})"
    and body: "(if in_use s = {} then Some s
                else wait others (Suc k) (interfere (others k) s)) = Some y"
  show "\<exists>j. y = seen others k j s \<and> in_use (seen others k j s) = {} \<and>
          (\<forall>j'<j. in_use (seen others k j' s) \<noteq> {})"
  proof (cases "in_use s = {}")
    case True
    then have "y = s" using body by simp
    then show ?thesis using True by (intro exI [of _ 0]) simp
  next
    case False
    then have "wait others (Suc k) (interfere (others k) s) = Some y"
      using body by simp
    from IH [OF this] obtain j where
      j: "y = seen others (Suc k) j (interfere (others k) s)"
         "in_use (seen others (Suc k) j (interfere (others k) s)) = {}"
         "\<forall>j'<j. in_use (seen others (Suc k) j' (interfere (others k) s)) \<noteq> {}"
      by auto
    have "\<forall>j'<Suc j. in_use (seen others k j' s) \<noteq> {}"
    proof (intro allI impI)
      fix j' assume "j' < Suc j"
      then show "in_use (seen others k j' s) \<noteq> {}"
        using False j(3) by (cases j') simp_all
    qed
    then show ?thesis
      using j(1,2) by (intro exI [of _ "Suc j"]) simp
  qed
qed

lemma frame_take:
  "pool (snd (take_instance s)) = pool s \<and> pool_size (snd (take_instance s)) = pool_size s \<and>
   model_name (snd (take_instance s)) = model_name s \<and>
   device_map (snd (take_instance s)) = device_map s \<and>
   use_llmlingua2 (snd (take_instance s)) = use_llmlingua2 s"
  by (simp add: take_instance_state)

lemma frame_release:
  "pool (release_compressor i s) = pool s \<and> pool_size (release_compressor i s) = pool_size s \<and>
   model_name (release_compressor i s) = model_name s \<and>
   device_map (release_compressor i s) = device_map s \<and>
   use_llmlingua2 (release_compressor i s) = use_llmlingua2 s"
  by (simp add: release_compressor_def)

lemma frame_occur:
  "pool (occur e s) = pool s \<and> pool_size (occur e s) = pool_size s \<and>
   model_name (occur e s) = model_name s \<and> device_map (occur e s) = device_map s \<and>
   use_llmlingua2 (occur e s) = use_llmlingua2 s"
  by (cases e) (simp_all add: frame_take frame_release)

lemma frame_interfere:
  "pool (interfere es s) = pool s \<and> pool_size (interfere es s) = pool_size s \<and>
   model_name (interfere es s) = model_name s \<and> device_map (interfere es s) = device_map s \<and>
   use_llmlingua2 (interfere es s) = use_llmlingua2 s"
  by (induction es arbitrary: s) (simp_all add: frame_occur)

lemma frame_seen:
  "pool (seen others k j s) = pool s \<and> pool_size (seen others k j s) = pool_size s \<and>
   model_name (seen others k j s) = model_name s \<and> device_map (seen others k j s) = device_map s \<and>
   use_llmlingua2 (seen others k j s) = use_llmlingua2 s"
  by (induction j arbitrary: k s) (simp_all add: frame_interfere)

lemma butlast_set_distinct:
  "xs \<noteq> [] \<Longrightarrow> distinct xs \<Longrightarrow> set (butlast xs) = set xs - {last xs}"
  by (induction xs rule: rev_induct) auto

lemma initialize_pool_Inr:
  assumes "initialize_pool fails s = (Inr u, s')"
  shows "s' = s\<lparr>pool := pool s @ replicate (nat (pool_size s))
                     (PromptCompressor (model_name s) (device_map s) (use_llmlingua2 s)),
                 available := available s @ [0..pool_size s - 1]\<rparr>"
proof -
  have ok: "\<forall>i\<in>set [0..pool_size s - 1]. \<not> fails i"
    using assms unfolding initialize_pool_def by (rule init_loop_Inr_none_fail)
  show ?thesis
    using assms init_loop_ok [OF ok, of s] unfolding initialize_pool_def by simp
qed

lemma pool_inv_rebuilt:
  assumes "0 \<le> pool_size s" "pool s = []" "available s = []" "in_use s = {}"
    and "initialize_pool fails s = (Inr u, s')"
  shows "pool_inv s'"
  unfolding initialize_pool_Inr [OF assms(5)] pool_inv_def using assms(1-4) by simp

lemma pool_inv_init:
  assumes "0 \<le> n" "CompressorPool_init fails n m d u = Inr s"
  shows "pool_inv s"
proof -
  obtain r s' where i: "initialize_pool fails (fresh n m d u) = (r, s')"
    by (cases "initialize_pool fails (fresh n m d u)")
  then have "r = Inr ()" "s' = s"
    using assms(2) unfolding CompressorPool_init_def by (auto split: sum.splits)
  with i have "initialize_pool fails (fresh n m d u) = (Inr (), s)" by simp
  then show ?thesis
    by (rule pool_inv_rebuilt [rotated -1]) (simp_all add: fresh_def assms(1))
qed

lemma pool_inv_get_compressor:
  assumes "pool_inv s"
  shows "pool_inv (fst (snd (get_compressor others late timeout now s)))"
proof -
  obtain r s' now' where
    res: "poll others late now timeout 0 (now + max 0 (late 0)) s = (r, s', now')"
    by (metis prod_cases3)
  from poll_cases [OF res] obtain j where
    at: "if now' - now < timeout
         then available (seen others 0 j s) \<noteq> [] \<and> (r, s') = take_instance (seen others 0 j s)
         else r = Inl PoolExhausted \<and> s' = seen others 0 j s"
    by blast
  have invt: "pool_inv (seen others 0 j s)" by (rule pool_inv_seen [OF assms])
  have "pool_inv s'"
  proof (cases "now' - now < timeout")
    case True
    then have "(r, s') = take_instance (seen others 0 j s)" "available (seen others 0 j s) \<noteq> []"
      using at by simp_all
    then have "s' = snd (take_instance (seen others 0 j s))" "available (seen others 0 j s) \<noteq> []"
      by (metis snd_conv, simp)
    then show ?thesis using pool_inv_take [OF invt] by simp
  next
    case False
    then show ?thesis using at invt by simp
  qed
  then show ?thesis using res by (simp add: get_compressor_def)
qed

lemma frame_set_config:
  "pool (set_config mn dm s) = pool s \<and> pool_size (set_config mn dm s) = pool_size s \<and>
   available (set_config mn dm s) = available s \<and> in_use (set_config mn dm s) = in_use s \<and>
   use_llmlingua2 (set_config mn dm s) = use_llmlingua2 s \<and>
   model_name (set_config mn dm s) = (case mn of None \<Rightarrow> model_name s | Some m \<Rightarrow> m) \<and>
   device_map (set_config mn dm s) = (case dm of None \<Rightarrow> device_map s | Some d \<Rightarrow> d)"
  by (cases mn; cases dm) (simp_all add: set_config_def)

lemma disturb_quiet: "disturb (quiet k) s = s"
  by (simp add: disturb_def quiet_def)

lemma frame_disturb:
  "pool (disturb f s) = pool s \<and> pool_size (disturb f s) = pool_size s \<and>
   model_name (disturb f s) = model_name s \<and> device_map (disturb f s) = device_map s \<and>
   use_llmlingua2 (disturb f s) = use_llmlingua2 s"
  by (simp add: disturb_def)

lemma init_loop_among_quiet: "init_loop_among quiet k fails ixs s = init_loop fails ixs s"
  by (induction ixs arbitrary: k s) (simp_all add: disturb_quiet Let_def split: sum.splits)

lemma rebuild_quiet: "rebuild quiet fails s = initialize_pool fails (cleared s)"
  by (simp add: rebuild_def disturb_quiet init_loop_among_quiet initialize_pool_def cleared_def)

lemma init_loop_among_Inr:
  "init_loop_among window k fails ixs s = (Inr u, s') \<Longrightarrow>
   pool s' = pool s @ replicate (length ixs)
               (PromptCompressor (model_name s) (device_map s) (use_llmlingua2 s)) \<and>
   pool_size s' = pool_size s \<and> model_name s' = model_name s \<and>
   device_map s' = device_map s \<and> use_llmlingua2 s' = use_llmlingua2 s"
proof (induction ixs arbitrary: k s)
  case Nil
  then show ?case by simp
next
  case (Cons i ixs)
  let ?w = "PromptCompressor (model_name s) (device_map s) (use_llmlingua2 s)"
  let ?s1 = "disturb (window k) (s\<lparr>pool := pool s @ [?w]\<rparr>)"
  let ?s2 = "disturb (window (Suc k)) (?s1\<lparr>available := available ?s1 @ [i]\<rparr>)"
  have ok: "\<not> fails i"
    using Cons.prems by (auto simp: new_PromptCompressor_def split: if_splits)
  then have rec: "init_loop_among window (Suc (Suc k)) fails ixs ?s2 = (Inr u, s')"
    using Cons.prems by (simp add: new_PromptCompressor_def Let_def)
  have fr: "pool ?s2 = pool s @ [?w]" "pool_size ?s2 = pool_size s" "model_name ?s2 = model_name s"
    "device_map ?s2 = device_map s" "use_llmlingua2 ?s2 = use_llmlingua2 s"
    by (simp_all add: frame_disturb)
  from Cons.IH [OF rec] show ?case
    unfolding fr by (simp add: replicate_append_same)
qed

lemma init_loop_among_ok:
  "\<forall>i\<in>set ixs. \<not> fails i \<Longrightarrow> \<exists>s'. init_loop_among window k fails ixs s = (Inr (), s')"
  by (induction ixs arbitrary: k s) (simp_all add: new_PromptCompressor_def Let_def)

lemma init_loop_among_Inr_none_fail:
  "init_loop_among window k fails ixs s = (Inr u, s') \<Longrightarrow> \<forall>i\<in>set ixs. \<not> fails i"
  by (induction ixs arbitrary: k s)
    (auto simp: new_PromptCompressor_def Let_def split: if_splits)

lemma rebuild_Inr:
  assumes "rebuild window fails s = (Inr u, s')"
  shows "pool s' = replicate (nat (pool_size s))
                     (PromptCompressor (model_name s) (device_map s) (use_llmlingua2 s)) \<and>
         pool_size s' = pool_size s \<and> model_name s' = model_name s \<and>
         device_map s' = device_map s \<and> use_llmlingua2 s' = use_llmlingua2 s"
proof -
  let ?s1 = "disturb (window 0) s"
  let ?s2 = "disturb (window 1) (?s1\<lparr>pool := []\<rparr>)"
  let ?s3 = "disturb (window 2) (?s2\<lparr>available := []\<rparr>)"
  let ?s4 = "disturb (window 3) (?s3\<lparr>in_use := {}\<rparr>)"
  have fr: "pool ?s4 = []" "pool_size ?s4 = pool_size s" "model_name ?s4 = model_name s"
    "device_map ?s4 = device_map s" "use_llmlingua2 ?s4 = use_llmlingua2 s"
    by (simp_all add: frame_disturb)
  have "init_loop_among window 4 fails [0..pool_size ?s4 - 1] ?s4 = (Inr u, s')"
    using assms by (simp add: rebuild_def Let_def)
  from init_loop_among_Inr [OF this] show ?thesis
    unfolding fr by simp
qed

lemma rebuild_ok:
  assumes "\<forall>i\<in>{0..pool_size s - 1}. \<not> fails i"
  shows "\<exists>s'. rebuild window fails s = (Inr (), s')"
proof -
  let ?s1 = "disturb (window 0) s"
  let ?s2 = "disturb (window 1) (?s1\<lparr>pool := []\<rparr>)"
  let ?s3 = "disturb (window 2) (?s2\<lparr>available := []\<rparr>)"
  let ?s4 = "disturb (window 3) (?s3\<lparr>in_use := {}\<rparr>)"
  have size: "pool_size ?s4 = pool_size s"
    by (simp add: frame_disturb)
  have "\<forall>i\<in>set [0..pool_size ?s4 - 1]. \<not> fails i"
    using assms unfolding size by simp
  from init_loop_among_ok [OF this, of window 4 ?s4] show ?thesis
    by (simp add: rebuild_def Let_def)
qed

lemma update_model_Some:
  assumes "update_model others window fails mn dm s = Some (r, s')"
  shows "\<exists>j. in_use (seen others 0 j (set_config mn dm s)) = {} \<and>
             (\<forall>j'<j. in_use (seen others 0 j' (set_config mn dm s)) \<noteq> {}) \<and>
             rebuild window fails (seen others 0 j (set_config mn dm s)) = (r, s')"
proof -
  obtain t where w: "wait_released others 0 (set_config mn dm s) = Some t"
    and i: "rebuild window fails t = (r, s')"
    using assms unfolding update_model_def
    by (auto split: option.splits)
  from wait_released_cases [OF w] obtain j where
    "t = seen others 0 j (set_config mn dm s)"
    "in_use (seen others 0 j (set_config mn dm s)) = {}"
    "\<forall>j'<j. in_use (seen others 0 j' (set_config mn dm s)) \<noteq> {}"
    by blast
  then show ?thesis
    using i by (intro exI [of _ j]) simp
qed

lemma pool_inv_update_model:
  assumes "0 \<le> pool_size s" "update_model others quiet fails mn dm s = Some (Inr (), s')"
  shows "pool_inv s'"
proof -
  from update_model_Some [OF assms(2)] obtain j where
    i: "initialize_pool fails (cleared (seen others 0 j (set_config mn dm s))) = (Inr (), s')"
    unfolding rebuild_quiet by blast
  have "pool_size (seen others 0 j (set_config mn dm s)) = pool_size s"
    using frame_seen [of others 0 j "set_config mn dm s"] frame_set_config [of mn dm s] by simp
  then show ?thesis
    using assms(1) by (intro pool_inv_rebuilt [OF _ _ _ _ i]) (simp_all add: cleared_def)
qed

lemma get_compressor_alone_cases:
  assumes "get_compressor alone late timeout now s = (r, s', now')"
  shows "(available s \<noteq> [] \<and> (r, s') = take_instance s) \<or> (r = Inl PoolExhausted \<and> s' = s)"
  using poll_cases [OF assms [unfolded get_compressor_def]]
  by (auto simp: seen_alone split: if_splits)

lemma getitem_in_set: "getitem xs i = Inr w \<Longrightarrow> w \<in> set xs"
  by (auto simp: getitem_def split: if_splits)

lemma take_instance_cases:
  assumes "take_instance s = (r, s')"
  shows "s' = s\<lparr>available := butlast (available s), in_use := insert (last (available s)) (in_use s)\<rparr> \<and>
         (r = Inl IndexError \<or> (\<exists>w. r = Inr (w, last (available s)) \<and> w \<in> set (pool s)))"
  using assms
  by (auto simp: take_instance_def Let_def getitem_def split: sum.splits if_splits)

lemma step_cases:
  assumes "step c (now, s) = (r, now', s')"
  shows "(\<exists>i. c = Release i \<and> r = Done \<and> s' = release_compressor i s) \<or>
         (\<exists>t l. c = Acquire t l \<and> r = Raised PoolExhausted \<and> s' = s) \<or>
         (\<exists>t l. c = Acquire t l \<and> r = Raised IndexError \<and> available s \<noteq> [] \<and> s' = snd (take_instance s)) \<or>
         (\<exists>t l w. c = Acquire t l \<and> r = Got w (last (available s)) \<and> w \<in> set (pool s) \<and>
                available s \<noteq> [] \<and> s' = snd (take_instance s))"
proof (cases c)
  case (Release i)
  then show ?thesis using assms by auto
next
  case (Acquire t l)
  obtain g s1 n1 where g: "get_compressor alone l t now s = (g, s1, n1)"
    by (metis prod_cases3)
  from get_compressor_alone_cases [OF g] show ?thesis
  proof
    assume "g = Inl PoolExhausted \<and> s1 = s"
    then show ?thesis using assms Acquire g by auto
  next
    assume a: "available s \<noteq> [] \<and> (g, s1) = take_instance s"
    then have ti: "take_instance s = (g, s1)" by simp
    from take_instance_cases [OF ti] a ti show ?thesis
      using assms Acquire g by (auto split: sum.splits)
  qed
qed

lemma pool_inv_step:
  assumes "pool_inv s" "step c (now, s) = (r, now', s')"
  shows "pool_inv s'"
  using step_cases [OF assms(2)] assms(1)
  by (auto simp: pool_inv_release pool_inv_take)

lemma holders_distinct:
  "pool_inv s \<Longrightarrow> distinct held \<Longrightarrow> set held \<subseteq> in_use s \<Longrightarrow>
   distinct (holders held (history calls (now, s)))"
proof (induction calls arbitrary: held now s)
  case Nil
  then show ?case by simp
next
  case (Cons c calls)
  obtain r now' s' where st: "step c (now, s) = (r, now', s')"
    by (metis prod_cases3)
  have inv': "pool_inv s'" by (rule pool_inv_step [OF Cons.prems(1) st])
  have disj: "set (available s) \<inter> in_use s = {}"
    using Cons.prems(1) unfolding pool_inv_def by blast
  from step_cases [OF st] consider
      (release) i where "c = Release i" "r = Done" "s' = release_compressor i s"
    | (exhausted) t l where "c = Acquire t l" "r = Raised PoolExhausted" "s' = s"
    | (index) t l where "c = Acquire t l" "r = Raised IndexError" "available s \<noteq> []"
        "s' = snd (take_instance s)"
    | (got) t l w where "c = Acquire t l" "r = Got w (last (available s))" "available s \<noteq> []"
        "s' = snd (take_instance s)"
    by blast
  then show ?case
  proof cases
    case release
    have "distinct (remove1 i held)" using Cons.prems(2) by simp
    moreover have "set (remove1 i held) \<subseteq> in_use s'"
      using Cons.prems(2,3) release(3) by (auto simp: release_compressor_def)
    ultimately have "distinct (holders (remove1 i held) (history calls (now', s')))"
      by (rule Cons.IH [OF inv'])
    then show ?thesis using st release by simp
  next
    case exhausted
    have "distinct (holders held (history calls (now', s')))"
      using Cons.IH [OF inv' Cons.prems(2)] Cons.prems(3) exhausted(3) by simp
    then show ?thesis using st exhausted by simp
  next
    case index
    have "set held \<subseteq> in_use s'"
      using Cons.prems(3) index(4) by (auto simp: take_instance_state)
    then have "distinct (holders held (history calls (now', s')))"
      by (rule Cons.IH [OF inv' Cons.prems(2)])
    then show ?thesis using st index by simp
  next
    case got
    let ?i = "last (available s)"
    have "?i \<in> set (available s)" using got(3) by simp
    then have "?i \<notin> in_use s" using disj by blast
    then have "distinct (?i # held)" using Cons.prems(2,3) by auto
    moreover have "set (?i # held) \<subseteq> in_use s'"
      using Cons.prems(3) got(4) by (auto simp: take_instance_state)
    ultimately have "distinct (holders (?i # held) (history calls (now', s')))"
      by (rule Cons.IH [OF inv'])
    then show ?thesis using st got by simp
  qed
qed

lemma take_history: "take n (history calls w) = history (take n calls) w"
proof (induction calls arbitrary: n w)
  case Nil
  then show ?case by simp
next
  case (Cons c calls)
  then show ?case by (cases n) simp_all
qed

lemma holders_append: "holders held (h1 @ h2) = holders (holders held h1) h2"
  by (induction held h1 rule: holders.induct) simp_all

lemma holders_keeps:
  "i \<in> set held \<Longrightarrow> \<forall>r. (Release i, r) \<notin> set h \<Longrightarrow> i \<in> set (holders held h)"
proof (induction held h rule: holders.induct)
  case (4 held j r h)
  then have "j \<noteq> i" by auto
  then have "i \<in> set (remove1 j held)" using 4(2) by simp
  then show ?case using 4 by simp
qed simp_all

lemma initialize_pool_fails_at:
  assumes "0 \<le> k" "k < pool_size s" "fails k" "\<forall>i\<in>{0..k - 1}. \<not> fails i"
  shows "initialize_pool fails s =
     (Inl ConstructionError,
      s\<lparr>pool := pool s @ replicate (nat k)
                  (PromptCompressor (model_name s) (device_map s) (use_llmlingua2 s)),
        available := available s @ [0..k - 1]\<rparr>)"
proof -
  have split: "[0..pool_size s - 1] = [0..k - 1] @ k # [k + 1..pool_size s - 1]"
    using assms(1,2) by (intro upto_split3) simp_all
  have ok: "\<forall>i\<in>set [0..k - 1]. \<not> fails i" using assms(4) by simp
  have len: "length [0..k - 1] = nat k" by simp
  show ?thesis
    unfolding initialize_pool_def split
    using init_loop_fail [OF ok assms(3), of "[k + 1..pool_size s - 1]" s]
    unfolding len by simp
qed

lemma handed_out_from_pool: "set (handed_out (history calls (now, s))) \<subseteq> set (pool s)"
proof (induction calls arbitrary: now s)
  case Nil
  then show ?case by simp
next
  case (Cons c calls)
  obtain r now' s' where st: "step c (now, s) = (r, now', s')"
    by (metis prod_cases3)
  have same: "pool s' = pool s"
    using step_cases [OF st] frame_take [of s] frame_release by auto
  have rest: "set (handed_out (history calls (now', s'))) \<subseteq> set (pool s)"
    using Cons.IH [of now' s'] same by simp
  from step_cases [OF st] have "r = Done \<or> (\<exists>e. r = Raised e) \<or> (\<exists>w i. r = Got w i \<and> w \<in> set (pool s))"
    by auto
  then show ?case using st rest by auto
qed

lemma set_replicate_subset: "set (replicate n x) \<subseteq> {x}"
  by (induction n) auto

lemma first_drained:
  assumes "in_use (seen others k j s) = {}"
  shows "\<exists>j0. in_use (seen others k j0 s) = {} \<and> (\<forall>j'<j0. in_use (seen others k j' s) \<noteq> {})"
proof -
  let ?P = "\<lambda>j. in_use (seen others k j s) = {}"
  have "?P (LEAST j. ?P j)" using assms by (rule LeastI)
  moreover have "\<forall>j'<(LEAST j. ?P j). \<not> ?P j'" using not_less_Least by blast
  ultimately show ?thesis by blast
qed

lemma init_pool2: "CompressorPool_init never_fails 2 ''m'' ''cpu'' True = Inr pool2"
  by (simp add: CompressorPool_init_def initialize_pool_def fresh_def new_PromptCompressor_def upto.simps)

lemma take_pool2: "get_compressor alone punctual 30 0 pool2 = (Inr (worker0, 1), pool2_taken, 0)"
  by (simp add: get_compressor_def take_instance_def getitem_def punctual_def)

lemma wait_pool1:
  "get_compressor alone punctual (1 / 4) 0 pool1_busy = (Inl PoolExhausted, pool1_busy, 3 / 10)"
  by (simp add: get_compressor_def alone_def punctual_def)

lemma inv_pool2: "pool_inv pool2"
  by (rule pool_inv_init [OF _ init_pool2]) simp

lemma inv_pool2_taken: "pool_inv pool2_taken"
  using pool_inv_get_compressor [OF inv_pool2, of alone punctual 30 0] by (simp add: take_pool2)

lemma inv_pool1_busy: "pool_inv pool1_busy"
  by (simp add: pool_inv_def)

lemma inv_pool4_one_taken: "pool_inv pool4_one_taken"
proof -
  have i: "CompressorPool_init never_fails 4 ''m'' ''cpu'' True =
     Inr \<lparr>pool_size = 4, model_name = ''m'', device_map = ''cpu'', use_llmlingua2 = True,
          pool = [worker0, worker0, worker0, worker0], available = [0, 1, 2, 3], in_use = {}\<rparr>"
    by (simp add: CompressorPool_init_def initialize_pool_def fresh_def new_PromptCompressor_def
        upto.simps)
  have "pool_inv \<lparr>pool_size = 4, model_name = ''m'', device_map = ''cpu'', use_llmlingua2 = True,
          pool = [worker0, worker0, worker0, worker0], available = [0, 1, 2, 3], in_use = {}\<rparr>"
    by (rule pool_inv_init [OF _ i]) simp
  from pool_inv_get_compressor [OF this, of alone punctual 30 0] show ?thesis
    by (simp add: get_compressor_def take_instance_def getitem_def punctual_def)
qed

lemma history_pool2:
  "history [Acquire 30 punctual, Release 1, Acquire 30 punctual] (0, pool2) =
     [] @ (Acquire 30 punctual, Got worker0 1) # [(Release 1, Done)]
        @ (Acquire 30 punctual, Got worker0 1) # []"
  by (simp add: get_compressor_def take_instance_def getitem_def release_compressor_def
      punctual_def)

lemma update_pool2_taken:
  "update_model (gives_during 1 1) quiet never_fails (Some ''m2'') None pool2_taken
     = Some (Inr (), pool2_new)"
  by (simp add: update_model_def set_config_def wait_released.simps release_compressor_def
      rebuild_quiet cleared_def initialize_pool_def new_PromptCompressor_def upto.simps)

lemma raced_update_pool2:
  "update_model alone (takes_then_gives 1) never_fails None None pool2 =
     Some (Inr (), \<lparr>pool_size = 2, model_name = ''m'', device_map = ''cpu'', use_llmlingua2 = True,
                    pool = [worker0, worker0], available = [1, 0, 1], in_use = {}\<rparr>)"
  by (simp add: update_model_def set_config_def wait_released.simps rebuild_def disturb_def
      take_instance_def getitem_def release_compressor_def new_PromptCompressor_def upto.simps)

lemma failing_update_pool2:
  "update_model alone quiet (fails_at 1) None None pool2 =
     Some (Inl ConstructionError,
           \<lparr>pool_size = 2, model_name = ''m'', device_map = ''cpu'', use_llmlingua2 = True,
            pool = [worker0], available = [0], in_use = {}\<rparr>)"
  by (simp add: update_model_def set_config_def wait_released.simps rebuild_quiet cleared_def
      initialize_pool_def new_PromptCompressor_def upto.simps)

lemma pool_inv_final: "pool_inv s \<Longrightarrow> pool_inv (snd (final calls (now, s)))"
proof (induction calls arbitrary: now s)
  case Nil
  then show ?case by simp
next
  case (Cons c calls)
  obtain r now' s' where st: "step c (now, s) = (r, now', s')"
    by (metis prod_cases3)
  have "pool_inv s'" by (rule pool_inv_step [OF Cons.prems st])
  from Cons.IH [OF this, of now'] show ?case
    using st by simp
qed

subsection \<open>At most one holder per index\<close>

text \<open>
  C1. Take a pool that satisfies the invariant, the tickets \<open>held\<close> outstanding on it (no
  ticket twice, each in use), and any sequence of \<^verbatim>\<open>get_compressor\<close> and
  \<^verbatim>\<open>release_compressor\<close> calls, each acquisition with any timeout and any lateness of
  its clock. After every prefix of the history no index is outstanding
  twice. And when two acquisitions of the history return the same index, a release of that
  index lies between them.
\<close>

theorem one_holder_per_index:
  assumes inv: "pool_inv s" and held: "distinct held" "set held \<subseteq> in_use s"
  shows "(\<forall>n. distinct (holders held (take n (history calls (now, s))))) \<and>
         (\<forall>h1 h2 h3 t1 t2 l1 l2 w1 w2 i.
            history calls (now, s) = h1 @ (Acquire t1 l1, Got w1 i) # h2 @ (Acquire t2 l2, Got w2 i) # h3
            \<longrightarrow> (\<exists>r. (Release i, r) \<in> set h2))"
proof -
  have prefix: "distinct (holders held (take n (history calls (now, s))))" for n
    unfolding take_history by (rule holders_distinct [OF inv held])
  have released: "\<exists>r. (Release i, r) \<in> set h2"
    if h: "history calls (now, s) = h1 @ (Acquire t1 l1, Got w1 i) # h2 @ (Acquire t2 l2, Got w2 i) # h3"
    for h1 h2 h3 t1 t2 l1 l2 w1 w2 i
  proof (rule ccontr)
    assume "\<not> (\<exists>r. (Release i, r) \<in> set h2)"
    then have none: "\<forall>r. (Release i, r) \<notin> set h2" by blast
    let ?p = "h1 @ (Acquire t1 l1, Got w1 i) # h2 @ [(Acquire t2 l2, Got w2 i)]"
    have "take (length ?p) (history calls (now, s)) = ?p"
      unfolding h by simp
    then have "distinct (holders held ?p)"
      using prefix [of "length ?p"] by simp
    moreover have "holders held ?p = i # holders (i # holders held h1) h2"
      by (simp add: holders_append)
    moreover have "i \<in> set (holders (i # holders held h1) h2)"
      by (rule holders_keeps [OF _ none]) simp
    ultimately show False by simp
  qed
  show ?thesis
    using prefix released by blast
qed

theorem one_holder_per_index_witness:
  "pool_inv pool2 \<and> distinct ([] :: int list) \<and> set [] \<subseteq> in_use pool2 \<and>
   history [Acquire 30 punctual, Release 1, Acquire 30 punctual] (0, pool2) =
     [] @ (Acquire 30 punctual, Got worker0 1) # [(Release 1, Done)] @ (Acquire 30 punctual, Got worker0 1) # [] \<and>
   (\<exists>r. (Release 1, r) \<in> set [(Release 1, Done)]) \<and>
   distinct (holders [] (take 3 (history [Acquire 30 punctual, Release 1, Acquire 30 punctual] (0, pool2)))) \<and>
   pool_inv pool2_taken \<and> distinct [1 :: int] \<and> set [1] \<subseteq> in_use pool2_taken \<and>
   holders [1] (take 1 (history [Acquire 30 punctual, Release 1] (0, pool2_taken))) = [0, 1] \<and>
   distinct (holders [1] (take 1 (history [Acquire 30 punctual, Release 1] (0, pool2_taken))))"
proof -
  have none: "distinct ([] :: int list)" "set [] \<subseteq> in_use pool2" by simp_all
  note one = one_holder_per_index [OF inv_pool2 none, of "[Acquire 30 punctual, Release 1, Acquire 30 punctual]" 0]
  have between: "\<exists>r. (Release 1, r) \<in> set [(Release 1, Done)]"
    using one history_pool2 by blast
  have three: "distinct (holders [] (take 3 (history [Acquire 30 punctual, Release 1, Acquire 30 punctual] (0, pool2))))"
    using one by blast
  have one_held: "distinct [1 :: int]" "set [1] \<subseteq> in_use pool2_taken" by simp_all
  note two = one_holder_per_index [OF inv_pool2_taken one_held, of "[Acquire 30 punctual, Release 1]" 0]
  have after: "distinct (holders [1] (take 1 (history [Acquire 30 punctual, Release 1] (0, pool2_taken))))"
    using two by blast
  have who: "holders [1] (take 1 (history [Acquire 30 punctual, Release 1] (0, pool2_taken))) = [0, 1]"
    by (simp add: get_compressor_def take_instance_def getitem_def punctual_def)
  show ?thesis
    using inv_pool2 history_pool2 between three inv_pool2_taken after who by simp
qed

subsection \<open>The invariant after every operation\<close>

text \<open>
  C2, as the code has it. The invariant \<open>pool_inv\<close> says that the capacity is not
  negative, that the worker list has one worker per slot, that \<^verbatim>\<open>available\<close> holds no index
  twice, that \<^verbatim>\<open>available\<close> and \<^verbatim>\<open>in_use\<close> are disjoint and that together they hold
  exactly the indices \<open>0 .. pool_size - 1\<close>; so the two sizes add up to
  \<^verbatim>\<open>pool_size\<close>. A constructor call with a capacity that is not negative establishes it.
  \<^verbatim>\<open>get_compressor\<close> (whatever the other threads acquire and release meanwhile, however
  late the clock, and whether it returns or raises), \<^verbatim>\<open>release_compressor\<close> and
  \<^verbatim>\<open>get_status\<close> preserve it: if it holds before the call, it holds after. So it holds
  after every call of any sequence of acquisitions and releases on a pool so constructed. An
  \<^verbatim>\<open>update_model\<close> that returns establishes it again in the run in which no other thread
  touches the pool between the last test of the wait loop and the return. \<^verbatim>\<open>cleanup\<close>
  does not establish it: it empties both collections and leaves \<^verbatim>\<open>pool_size\<close> as it was.
\<close>

theorem pool_inv_established_and_preserved:
  "(0 \<le> n \<and> CompressorPool_init fails n m d u = Inr s0 \<longrightarrow>
      pool_inv s0 \<and> pool_inv (snd (final calls (now, s0)))) \<and>
   (pool_inv s \<longrightarrow>
      pool_inv (fst (snd (get_compressor others late timeout now s))) \<and>
      pool_inv (release_compressor i s) \<and>
      pool_inv (snd (get_status s))) \<and>
   (0 \<le> pool_size s \<and> update_model others quiet fails' mn dm s = Some (Inr (), s1)
      \<longrightarrow> pool_inv s1) \<and>
   (pool_inv s \<longrightarrow>
      distinct (available s) \<and> set (available s) \<inter> in_use s = {} \<and>
      set (available s) \<union> in_use s = {0..pool_size s - 1} \<and>
      int (length (available s)) + int (card (in_use s)) = pool_size s) \<and>
   available (cleanup s) = [] \<and> in_use (cleanup s) = {} \<and> pool_size (cleanup s) = pool_size s"
proof (intro conjI impI)
  assume a: "0 \<le> n \<and> CompressorPool_init fails n m d u = Inr s0"
  then show built: "pool_inv s0" using pool_inv_init by blast
  then show "pool_inv (snd (final calls (now, s0)))" by (rule pool_inv_final)
next
  assume "pool_inv s"
  then show "pool_inv (fst (snd (get_compressor others late timeout now s)))"
    by (rule pool_inv_get_compressor)
next
  assume "pool_inv s"
  then show "pool_inv (release_compressor i s)" by (rule pool_inv_release)
next
  assume "pool_inv s"
  then show "pool_inv (snd (get_status s))" by (simp add: get_status_def)
next
  assume "0 \<le> pool_size s \<and> update_model others quiet fails' mn dm s = Some (Inr (), s1)"
  then show "pool_inv s1" using pool_inv_update_model by blast
next
  assume "pool_inv s"
  then show "distinct (available s)" "set (available s) \<inter> in_use s = {}"
    "set (available s) \<union> in_use s = {0..pool_size s - 1}"
    unfolding pool_inv_def by blast+
next
  assume "pool_inv s"
  then show "int (length (available s)) + int (card (in_use s)) = pool_size s"
    by (rule pool_inv_count)
qed (simp_all add: cleanup_def cleared_def)

theorem pool_inv_established_and_preserved_witness:
  "(0::int) \<le> 2 \<and> CompressorPool_init never_fails 2 ''m'' ''cpu'' True = Inr pool2 \<and>
   pool_inv pool2 \<and>
   final [Acquire 30 punctual, Release 1, Acquire 30 punctual] (0, pool2) = (0, pool2_taken) \<and>
   pool_inv pool2_taken \<and>
   pool_inv (fst (snd (get_compressor alone punctual 30 0 pool2))) \<and>
   pool_inv (release_compressor 1 pool2_taken) \<and>
   pool_inv (snd (get_status pool2_taken)) \<and>
   0 \<le> pool_size pool2_taken \<and>
   update_model (gives_during 1 1) quiet never_fails (Some ''m2'') None pool2_taken
     = Some (Inr (), pool2_new) \<and>
   pool_inv pool2_new \<and>
   int (length (available pool2_taken)) + int (card (in_use pool2_taken)) = pool_size pool2_taken"
proof -
  note init = pool_inv_established_and_preserved
    [where n = 2 and fails = never_fails and m = "''m''" and d = "''cpu''" and u = True
       and ?s0.0 = pool2 and calls = "[Acquire 30 punctual, Release 1, Acquire 30 punctual]"
       and now = 0 and s = pool2 and others = alone and late = punctual and timeout = 30]
  have inv2: "pool_inv pool2" using init init_pool2 by simp
  have run: "final [Acquire 30 punctual, Release 1, Acquire 30 punctual] (0, pool2) = (0, pool2_taken)"
    by (simp add: get_compressor_def take_instance_def getitem_def release_compressor_def
        punctual_def)
  have "pool_inv (snd (final [Acquire 30 punctual, Release 1, Acquire 30 punctual] (0, pool2)))"
    using init init_pool2 by simp
  then have inv2t: "pool_inv pool2_taken" unfolding run by simp
  have take: "pool_inv (fst (snd (get_compressor alone punctual 30 0 pool2)))"
    using init inv2 by blast
  note ops = pool_inv_established_and_preserved
    [where s = pool2_taken and others = "gives_during 1 1" and i = 1 and fails' = never_fails
       and mn = "Some ''m2''" and dm = None and ?s1.0 = pool2_new]
  have rel: "pool_inv (release_compressor 1 pool2_taken)" "pool_inv (snd (get_status pool2_taken))"
    using ops inv2t by blast+
  have new: "pool_inv pool2_new" using ops update_pool2_taken by simp
  have count: "int (length (available pool2_taken)) + int (card (in_use pool2_taken)) = pool_size pool2_taken"
    using ops inv2t by blast
  show ?thesis
    using init_pool2 inv2 run inv2t take rel update_pool2_taken new count by simp
qed

text \<open>
  Four completed operations after which the sizes do not add up to the capacity.
  \<^verbatim>\<open>cleanup\<close> on a pool of capacity 2 leaves both collections empty. A constructor given
  the capacity \<open>-1\<close> returns a pool with both collections empty. On the pool that a
  failing \<^verbatim>\<open>update_model\<close> left with one worker, a \<^verbatim>\<open>get_compressor\<close> that returns leaves
  one index in all. And an \<^verbatim>\<open>update_model\<close> on an idle pool of capacity 2 returns with the
  index 1 twice in \<^verbatim>\<open>available\<close> when another thread acquires index 1 before
  \<^verbatim>\<open>self.pool.clear()\<close> and releases it between \<^verbatim>\<open>self.available.clear()\<close> and
  \<^verbatim>\<open>self.in_use.clear()\<close>.
\<close>

theorem completed_operations_break_balance_counterexample:
  "CompressorPool_init never_fails 2 ''m'' ''cpu'' True = Inr pool2 \<and>
   available (cleanup pool2) = [] \<and> in_use (cleanup pool2) = {} \<and>
   pool_size (cleanup pool2) = 2 \<and>
   int (length (available (cleanup pool2))) + int (card (in_use (cleanup pool2)))
     \<noteq> pool_size (cleanup pool2) \<and>
   CompressorPool_init never_fails (- 1) ''m'' ''cpu'' True = Inr (fresh (- 1) ''m'' ''cpu'' True) \<and>
   int (length (available (fresh (- 1) ''m'' ''cpu'' True)))
     + int (card (in_use (fresh (- 1) ''m'' ''cpu'' True)))
     \<noteq> pool_size (fresh (- 1) ''m'' ''cpu'' True) \<and>
   update_model alone quiet (fails_at 1) None None pool2 =
     Some (Inl ConstructionError,
           \<lparr>pool_size = 2, model_name = ''m'', device_map = ''cpu'', use_llmlingua2 = True,
            pool = [worker0], available = [0], in_use = {}\<rparr>) \<and>
   get_compressor alone punctual 30 0
     \<lparr>pool_size = 2, model_name = ''m'', device_map = ''cpu'', use_llmlingua2 = True,
      pool = [worker0], available = [0], in_use = {}\<rparr> =
     (Inr (worker0, 0),
      \<lparr>pool_size = 2, model_name = ''m'', device_map = ''cpu'', use_llmlingua2 = True,
       pool = [worker0], available = [], in_use = {0}\<rparr>, 0) \<and>
   int (length ([] :: int list)) + int (card {0 :: int}) \<noteq> 2 \<and>
   update_model alone (takes_then_gives 1) never_fails None None pool2 =
     Some (Inr (), \<lparr>pool_size = 2, model_name = ''m'', device_map = ''cpu'', use_llmlingua2 = True,
                    pool = [worker0, worker0], available = [1, 0, 1], in_use = {}\<rparr>) \<and>
   \<not> distinct [1, 0, 1 :: int] \<and>
   int (length [1, 0, 1 :: int]) + int (card ({} :: int set)) \<noteq> 2"
  by (simp add: CompressorPool_init_def initialize_pool_def fresh_def new_PromptCompressor_def
      upto.simps cleanup_def cleared_def raced_update_pool2 failing_update_pool2
      get_compressor_def take_instance_def getitem_def punctual_def)

subsection \<open>A construction that fails\<close>

text \<open>
  C3, as the code has it. Let slot \<open>k\<close> be the first whose construction raises, with
  \<open>0 \<le> k < n\<close>. Then the constructor of a pool of capacity \<open>n\<close> raises the
  construction error, and its caller gets no pool object. \<^verbatim>\<open>_initialize_pool\<close> itself
  does not undo what it did: run on a pool of capacity \<open>n\<close> it raises and leaves the
  \<open>k\<close> workers constructed before the failure appended to \<^verbatim>\<open>pool\<close> and their indices
  appended to \<^verbatim>\<open>available\<close>. This is the state an \<^verbatim>\<open>update_model\<close> that fails leaves
  behind in the pool object, which its caller still holds (stated for the run in which no
  other thread touches the pool while it is rebuilt).
\<close>

theorem failed_construction_keeps_earlier_workers:
  assumes "0 \<le> k" "k < n" "fails k" "\<forall>i\<in>{0..k - 1}. \<not> fails i"
  shows "CompressorPool_init fails n m d u = Inl ConstructionError \<and>
         (pool_size s = n \<longrightarrow>
            initialize_pool fails s =
              (Inl ConstructionError,
               s\<lparr>pool := pool s @ replicate (nat k)
                           (PromptCompressor (model_name s) (device_map s) (use_llmlingua2 s)),
                 available := available s @ [0..k - 1]\<rparr>)) \<and>
         (pool_size s = n \<and> in_use s = {} \<longrightarrow>
            update_model others quiet fails None None s =
              Some (Inl ConstructionError,
                    s\<lparr>pool := replicate (nat k)
                                (PromptCompressor (model_name s) (device_map s) (use_llmlingua2 s)),
                      available := [0..k - 1], in_use := {}\<rparr>))"
proof (intro conjI impI)
  have "initialize_pool fails (fresh n m d u) =
     (Inl ConstructionError,
      (fresh n m d u)\<lparr>pool := pool (fresh n m d u) @ replicate (nat k)
                  (PromptCompressor (model_name (fresh n m d u)) (device_map (fresh n m d u))
                     (use_llmlingua2 (fresh n m d u))),
        available := available (fresh n m d u) @ [0..k - 1]\<rparr>)"
    using assms by (intro initialize_pool_fails_at) (simp_all add: fresh_def)
  then show "CompressorPool_init fails n m d u = Inl ConstructionError"
    by (simp add: CompressorPool_init_def)
next
  assume "pool_size s = n"
  then show "initialize_pool fails s =
              (Inl ConstructionError,
               s\<lparr>pool := pool s @ replicate (nat k)
                           (PromptCompressor (model_name s) (device_map s) (use_llmlingua2 s)),
                 available := available s @ [0..k - 1]\<rparr>)"
    using assms by (intro initialize_pool_fails_at) simp_all
next
  assume a: "pool_size s = n \<and> in_use s = {}"
  have w: "wait_released others 0 (set_config None None s) = Some s"
    using a by (simp add: wait_released.simps set_config_def)
  have "initialize_pool fails (cleared s) =
     (Inl ConstructionError,
      (cleared s)\<lparr>pool := pool (cleared s) @ replicate (nat k)
                  (PromptCompressor (model_name (cleared s)) (device_map (cleared s))
                     (use_llmlingua2 (cleared s))),
        available := available (cleared s) @ [0..k - 1]\<rparr>)"
    using assms a by (intro initialize_pool_fails_at) (simp_all add: cleared_def)
  then show "update_model others quiet fails None None s =
              Some (Inl ConstructionError,
                    s\<lparr>pool := replicate (nat k)
                                (PromptCompressor (model_name s) (device_map s) (use_llmlingua2 s)),
                      available := [0..k - 1], in_use := {}\<rparr>)"
    using w by (simp add: update_model_def rebuild_quiet cleared_def)
qed

theorem failed_construction_keeps_earlier_workers_witness:
  "(0::int) \<le> 1 \<and> (1::int) < 2 \<and>
   CompressorPool_init (fails_at 1) 2 ''m'' ''cpu'' True = Inl ConstructionError \<and>
   initialize_pool (fails_at 1) (fresh 2 ''m'' ''cpu'' True) =
     (Inl ConstructionError,
      \<lparr>pool_size = 2, model_name = ''m'', device_map = ''cpu'', use_llmlingua2 = True,
       pool = [worker0], available = [0], in_use = {}\<rparr>) \<and>
   pool_size pool2 = 2 \<and> in_use pool2 = {} \<and>
   update_model alone quiet (fails_at 1) None None pool2 =
     Some (Inl ConstructionError,
           \<lparr>pool_size = 2, model_name = ''m'', device_map = ''cpu'', use_llmlingua2 = True,
            pool = [worker0], available = [0], in_use = {}\<rparr>)"
proof -
  have h: "(0::int) \<le> 1" "(1::int) < 2" "fails_at 1 1" "\<forall>i\<in>{0..1 - 1}. \<not> fails_at 1 i"
    by simp_all
  note f = failed_construction_keeps_earlier_workers [of 1 2 "fails_at 1", OF h]
  have "CompressorPool_init (fails_at 1) 2 ''m'' ''cpu'' True = Inl ConstructionError"
    using f by blast
  moreover have "initialize_pool (fails_at 1) (fresh 2 ''m'' ''cpu'' True) =
     (Inl ConstructionError,
      \<lparr>pool_size = 2, model_name = ''m'', device_map = ''cpu'', use_llmlingua2 = True,
       pool = [worker0], available = [0], in_use = {}\<rparr>)"
    using f [where s = "fresh 2 ''m'' ''cpu'' True"] by (simp add: fresh_def upto.simps)
  moreover have "update_model alone quiet (fails_at 1) None None pool2 =
     Some (Inl ConstructionError,
           \<lparr>pool_size = 2, model_name = ''m'', device_map = ''cpu'', use_llmlingua2 = True,
            pool = [worker0], available = [0], in_use = {}\<rparr>)"
    using f [where s = pool2 and others = alone] by (simp add: upto.simps)
  ultimately show ?thesis by simp
qed

text \<open>
  With capacity 2 and a failure at slot 1, \<^verbatim>\<open>_initialize_pool\<close> raises and leaves one
  worker in \<^verbatim>\<open>pool\<close> and the index 0 in \<^verbatim>\<open>available\<close>. An \<^verbatim>\<open>update_model\<close> that
  fails in this way on an idle pool of capacity 2 leaves the pool object with one worker,
  which the next \<^verbatim>\<open>get_compressor\<close> hands out.
\<close>

theorem failed_construction_partial_pool_counterexample:
  "initialize_pool (fails_at 1) (fresh 2 ''m'' ''cpu'' True) =
     (Inl ConstructionError,
      \<lparr>pool_size = 2, model_name = ''m'', device_map = ''cpu'', use_llmlingua2 = True,
       pool = [worker0], available = [0], in_use = {}\<rparr>) \<and>
   pool (snd (initialize_pool (fails_at 1) (fresh 2 ''m'' ''cpu'' True))) \<noteq> [] \<and>
   available (snd (initialize_pool (fails_at 1) (fresh 2 ''m'' ''cpu'' True))) \<noteq> [] \<and>
   update_model alone quiet (fails_at 1) None None pool2 =
     Some (Inl ConstructionError,
           \<lparr>pool_size = 2, model_name = ''m'', device_map = ''cpu'', use_llmlingua2 = True,
            pool = [worker0], available = [0], in_use = {}\<rparr>) \<and>
   get_compressor alone punctual 30 0
     \<lparr>pool_size = 2, model_name = ''m'', device_map = ''cpu'', use_llmlingua2 = True,
      pool = [worker0], available = [0], in_use = {}\<rparr> =
     (Inr (worker0, 0),
      \<lparr>pool_size = 2, model_name = ''m'', device_map = ''cpu'', use_llmlingua2 = True,
       pool = [worker0], available = [], in_use = {0}\<rparr>, 0)"
  by (simp add: initialize_pool_def fresh_def new_PromptCompressor_def upto.simps
      update_model_def set_config_def wait_released.simps rebuild_quiet cleared_def
      get_compressor_def take_instance_def getitem_def punctual_def)

subsection \<open>The two ways an acquisition ends\<close>

text \<open>
  C4. On a pool that satisfies the invariant, \<^verbatim>\<open>get_compressor\<close> ends in one of two ways.
  Either it returns, before the timeout has elapsed, the worker stored at an index \<open>i\<close>
  together with \<open>i\<close>; then \<open>i\<close> was available and not in use in the pool the deciding poll
  found, and the pool it leaves differs from that one only in that \<open>i\<close> has moved from
  \<^verbatim>\<open>available\<close> to \<^verbatim>\<open>in_use\<close>. Or it raises the exhaustion error once the timeout has
  elapsed, no worker is returned, and the pool is the one the last poll found: the call
  itself changed nothing. In both cases every earlier poll found nothing available, and
  the clock stands at the reading of the last loop test, whatever the lateness of the
  clock; on a punctual clock that is a tenth of a second per sleep after the call.
\<close>

theorem acquire_moves_one_index_or_fails_unchanged:
  assumes inv: "pool_inv s" and res: "get_compressor others late timeout now s = (r, s', now')"
  shows "\<exists>j. now' = reading late 0 j (now + max 0 (late 0)) \<and>
           ((\<forall>k. late k \<le> 0) \<longrightarrow> now' = now + of_nat j / 10) \<and>
           (\<forall>j'<j. available (seen others 0 j' s) = []) \<and>
           ((\<exists>i. r = Inr (pool s ! nat i, i) \<and> 0 \<le> i \<and> nat i < length (pool s) \<and>
                 now' - now < timeout \<and>
                 i \<in> set (available (seen others 0 j s)) \<and> i \<notin> in_use (seen others 0 j s) \<and>
                 s' = (seen others 0 j s)
                        \<lparr>available := butlast (available (seen others 0 j s)),
                         in_use := insert i (in_use (seen others 0 j s))\<rparr> \<and>
                 set (available s') = set (available (seen others 0 j s)) - {i}) \<or>
            (r = Inl PoolExhausted \<and> timeout \<le> now' - now \<and> s' = seen others 0 j s))"
proof -
  from poll_cases [OF res [unfolded get_compressor_def]] obtain j where
    t: "now' = reading late 0 j (now + max 0 (late 0))"
    and before: "\<forall>j'<j. available (seen others 0 j' s) = [] \<and>
                  reading late 0 j' (now + max 0 (late 0)) - now < timeout"
    and at: "if now' - now < timeout
             then available (seen others 0 j s) \<noteq> [] \<and> (r, s') = take_instance (seen others 0 j s)
             else r = Inl PoolExhausted \<and> s' = seen others 0 j s"
    by blast
  let ?t = "seen others 0 j s"
  have invt: "pool_inv ?t" by (rule pool_inv_seen [OF inv])
  have punct: "(\<forall>k. late k \<le> 0) \<longrightarrow> now' = now + of_nat j / 10"
  proof
    assume on_time: "\<forall>k. late k \<le> 0"
    then have "late 0 \<le> 0" by blast
    then have "now + max 0 (late 0) = now" by (simp add: max_def)
    then show "now' = now + of_nat j / 10"
      using t reading_punctual [OF on_time, of 0 j now] by simp
  qed
  show ?thesis
  proof (cases "now' - now < timeout")
    case False
    then show ?thesis using t punct before at by (intro exI [of _ j]) simp
  next
    case True
    then have ne: "available ?t \<noteq> []" and took: "(r, s') = take_instance ?t"
      using at by simp_all
    let ?i = "last (available ?t)"
    have mem: "?i \<in> set (available ?t)" using ne by simp
    have free: "?i \<notin> in_use ?t"
      using invt mem unfolding pool_inv_def by blast
    have len: "length (pool s) = nat (pool_size ?t)"
      using invt frame_seen [of others 0 j s] unfolding pool_inv_def by simp
    have "?i \<in> {0..pool_size ?t - 1}"
      using invt mem unfolding pool_inv_def by blast
    then have range: "0 \<le> ?i" "nat ?i < length (pool s)"
      unfolding len by simp_all
    have "fst (r, s') = Inr (pool ?t ! nat ?i, ?i)"
      unfolding took by (rule take_instance_result [OF invt ne])
    then have r: "r = Inr (pool s ! nat ?i, ?i)"
      using frame_seen [of others 0 j s] by simp
    have "snd (r, s') = ?t\<lparr>available := butlast (available ?t), in_use := insert ?i (in_use ?t)\<rparr>"
      unfolding took by (rule take_instance_state)
    then have s': "s' = ?t\<lparr>available := butlast (available ?t), in_use := insert ?i (in_use ?t)\<rparr>"
      by simp
    have "distinct (available ?t)" using invt unfolding pool_inv_def by blast
    then have "set (butlast (available ?t)) = set (available ?t) - {?i}"
      using ne by (simp add: butlast_set_distinct)
    then have "set (available s') = set (available ?t) - {?i}"
      using s' by simp
    then show ?thesis
      using t punct before True mem free range r s' by (intro exI [of _ j]) auto
  qed
qed

theorem acquire_moves_one_index_or_fails_unchanged_witness:
  "pool_inv pool2 \<and>
   get_compressor alone punctual 30 0 pool2 = (Inr (worker0, 1), pool2_taken, 0) \<and>
   1 \<in> set (available pool2) \<and> 1 \<notin> in_use pool2 \<and>
   set (available pool2_taken) = set (available pool2) - {1} \<and>
   pool_inv pool1_busy \<and>
   get_compressor alone punctual (1 / 4) 0 pool1_busy = (Inl PoolExhausted, pool1_busy, 3 / 10) \<and>
   (1 / 4 :: rat) \<le> 3 / 10 - 0"
proof -
  from acquire_moves_one_index_or_fails_unchanged [OF inv_pool2 take_pool2]
  have a: "1 \<in> set (available pool2) \<and> 1 \<notin> in_use pool2 \<and>
        set (available pool2_taken) = set (available pool2) - {1}"
    by (auto simp: seen_alone)
  from acquire_moves_one_index_or_fails_unchanged [OF inv_pool1_busy wait_pool1]
  have b: "(1 / 4 :: rat) \<le> 3 / 10 - 0"
    by (auto simp: seen_alone)
  show ?thesis
    using inv_pool2 take_pool2 a inv_pool1_busy wait_pool1 b by simp
qed

subsection \<open>Releasing a ticket that is not in use\<close>

text \<open>
  C5. \<^verbatim>\<open>release_compressor\<close> called with a ticket that is not in the in-use set returns
  the pool as it was (the method has no raising branch), and a second release of the same
  ticket right after a first one changes nothing.
\<close>

theorem release_not_in_use_noop:
  "(instance_id \<notin> in_use s \<longrightarrow> release_compressor instance_id s = s) \<and>
   release_compressor instance_id (release_compressor instance_id s) = release_compressor instance_id s"
  by (simp add: release_compressor_def)

theorem release_not_in_use_noop_witness:
  "7 \<notin> in_use pool2_taken \<and>
   release_compressor 7 pool2_taken = pool2_taken \<and>
   release_compressor 1 pool2_taken = pool2 \<and>
   release_compressor 1 (release_compressor 1 pool2_taken) = pool2"
proof -
  have absent: "7 \<notin> in_use pool2_taken" by simp
  have noop: "release_compressor 7 pool2_taken = pool2_taken"
    using release_not_in_use_noop [of 7 pool2_taken] absent by blast
  have once: "release_compressor 1 pool2_taken = pool2"
    by (simp add: release_compressor_def)
  have "release_compressor 1 (release_compressor 1 pool2_taken) = release_compressor 1 pool2_taken"
    using release_not_in_use_noop [of 1 pool2_taken] by blast
  then show ?thesis
    using absent noop once by simp
qed

subsection \<open>Reconfiguration\<close>

text \<open>
  C6. \<^verbatim>\<open>update_model\<close> first stores the new model name and device map (each only when
  given), then polls until \<^verbatim>\<open>in_use\<close> is empty. Whatever the other threads do to
  \<^verbatim>\<open>available\<close> and \<^verbatim>\<open>in_use\<close> while the pool is cleared and rebuilt: if at some poll
  \<^verbatim>\<open>in_use\<close> is empty and no construction fails, the call returns. When it returns, the
  wait loop has ended at the first poll that found \<^verbatim>\<open>in_use\<close> empty, the pool holds
  \<^verbatim>\<open>pool_size\<close> workers, all constructed with the configuration now stored in the pool,
  and every worker that any later sequence of calls acquires is a worker constructed with
  that configuration. In the run in which no other thread touches the pool between the
  last test of the wait loop and the return, moreover every index is available and none
  is in use.
\<close>

theorem update_model_rebuilds_with_new_configuration:
  "((\<exists>j. in_use (seen others 0 j (set_config mn dm s)) = {}) \<and>
    (\<forall>i\<in>{0..pool_size s - 1}. \<not> fails i)
    \<longrightarrow> (\<exists>s'. update_model others window fails mn dm s = Some (Inr (), s'))) \<and>
   (update_model others window fails mn dm s = Some (Inr (), s') \<longrightarrow>
      (\<exists>j. in_use (seen others 0 j (set_config mn dm s)) = {} \<and>
           (\<forall>j'<j. in_use (seen others 0 j' (set_config mn dm s)) \<noteq> {})) \<and>
      model_name s' = (case mn of None \<Rightarrow> model_name s | Some m \<Rightarrow> m) \<and>
      device_map s' = (case dm of None \<Rightarrow> device_map s | Some d \<Rightarrow> d) \<and>
      use_llmlingua2 s' = use_llmlingua2 s \<and> pool_size s' = pool_size s \<and>
      pool s' = replicate (nat (pool_size s))
                  (PromptCompressor (model_name s') (device_map s') (use_llmlingua2 s')) \<and>
      (\<forall>calls t. set (handed_out (history calls (t, s')))
                    \<subseteq> {PromptCompressor (model_name s') (device_map s') (use_llmlingua2 s')})) \<and>
   (update_model others quiet fails mn dm s = Some (Inr (), s') \<longrightarrow>
      available s' = [0..pool_size s - 1] \<and> in_use s' = {})"
proof (intro conjI impI)
  assume a: "(\<exists>j. in_use (seen others 0 j (set_config mn dm s)) = {}) \<and>
             (\<forall>i\<in>{0..pool_size s - 1}. \<not> fails i)"
  then obtain j where j: "in_use (seen others 0 j (set_config mn dm s)) = {}"
    "\<forall>j'<j. in_use (seen others 0 j' (set_config mn dm s)) \<noteq> {}"
    using first_drained by blast
  let ?t = "seen others 0 j (set_config mn dm s)"
  have w: "wait_released others 0 (set_config mn dm s) = Some ?t"
    by (rule wait_released_returns [OF j])
  have size: "pool_size ?t = pool_size s"
    using frame_seen [of others 0 j "set_config mn dm s"] frame_set_config [of mn dm s]
    by simp
  have "\<forall>i\<in>{0..pool_size ?t - 1}. \<not> fails i"
    using a unfolding size by simp
  from rebuild_ok [OF this, of window]
  show "\<exists>s'. update_model others window fails mn dm s = Some (Inr (), s')"
    using w by (auto simp: update_model_def)
next
  assume u: "update_model others window fails mn dm s = Some (Inr (), s')"
  from update_model_Some [OF u] obtain j where
    j: "in_use (seen others 0 j (set_config mn dm s)) = {}"
       "\<forall>j'<j. in_use (seen others 0 j' (set_config mn dm s)) \<noteq> {}"
    and i: "rebuild window fails (seen others 0 j (set_config mn dm s)) = (Inr (), s')"
    by blast
  let ?t = "seen others 0 j (set_config mn dm s)"
  note fr = frame_seen [of others 0 j "set_config mn dm s"] frame_set_config [of mn dm s]
  note built = rebuild_Inr [OF i]
  show "\<exists>j. in_use (seen others 0 j (set_config mn dm s)) = {} \<and>
           (\<forall>j'<j. in_use (seen others 0 j' (set_config mn dm s)) \<noteq> {})"
    using j by blast
  show mn: "model_name s' = (case mn of None \<Rightarrow> model_name s | Some m \<Rightarrow> m)"
    using built fr by simp
  show dm: "device_map s' = (case dm of None \<Rightarrow> device_map s | Some d \<Rightarrow> d)"
    using built fr by simp
  show u2: "use_llmlingua2 s' = use_llmlingua2 s"
    using built fr by simp
  show "pool_size s' = pool_size s"
    using built fr by simp
  have "pool s' = replicate (nat (pool_size ?t))
                  (PromptCompressor (model_name ?t) (device_map ?t) (use_llmlingua2 ?t))"
    using built by blast
  moreover have "model_name ?t = model_name s'" "device_map ?t = device_map s'"
    "use_llmlingua2 ?t = use_llmlingua2 s'" "pool_size ?t = pool_size s"
    using built fr by simp_all
  ultimately show p: "pool s' = replicate (nat (pool_size s))
                  (PromptCompressor (model_name s') (device_map s') (use_llmlingua2 s'))"
    by simp
  show "\<forall>calls t. set (handed_out (history calls (t, s')))
                    \<subseteq> {PromptCompressor (model_name s') (device_map s') (use_llmlingua2 s')}"
  proof (intro allI)
    fix calls t
    have "set (handed_out (history calls (t, s'))) \<subseteq> set (pool s')"
      by (rule handed_out_from_pool)
    also have "\<dots> \<subseteq> {PromptCompressor (model_name s') (device_map s') (use_llmlingua2 s')}"
      by (subst p) (rule set_replicate_subset)
    finally show "set (handed_out (history calls (t, s')))
                    \<subseteq> {PromptCompressor (model_name s') (device_map s') (use_llmlingua2 s')}" .
  qed
next
  assume u: "update_model others quiet fails mn dm s = Some (Inr (), s')"
  from update_model_Some [OF u] obtain j where
    i: "initialize_pool fails (cleared (seen others 0 j (set_config mn dm s))) = (Inr (), s')"
    unfolding rebuild_quiet by blast
  let ?t = "seen others 0 j (set_config mn dm s)"
  have size: "pool_size ?t = pool_size s"
    using frame_seen [of others 0 j "set_config mn dm s"] frame_set_config [of mn dm s]
    by simp
  have s': "s' = (cleared ?t)\<lparr>pool := pool (cleared ?t) @ replicate (nat (pool_size (cleared ?t)))
                     (PromptCompressor (model_name (cleared ?t)) (device_map (cleared ?t))
                        (use_llmlingua2 (cleared ?t))),
                 available := available (cleared ?t) @ [0..pool_size (cleared ?t) - 1]\<rparr>"
    by (rule initialize_pool_Inr [OF i])
  show "available s' = [0..pool_size s - 1]"
    unfolding s' using size by (simp add: cleared_def)
  show "in_use s' = {}"
    unfolding s' by (simp add: cleared_def)
qed

theorem update_model_rebuilds_with_new_configuration_witness:
  "in_use (seen (gives_during 1 1) 0 2 (set_config (Some ''m2'') None pool2_taken)) = {} \<and>
   in_use (seen (gives_during 1 1) 0 1 (set_config (Some ''m2'') None pool2_taken)) \<noteq> {} \<and>
   update_model (gives_during 1 1) quiet never_fails (Some ''m2'') None pool2_taken
     = Some (Inr (), pool2_new) \<and>
   pool pool2_new = replicate (nat (pool_size pool2_taken)) worker1 \<and>
   available pool2_new = [0..pool_size pool2_taken - 1] \<and> in_use pool2_new = {} \<and>
   set (handed_out (history [Acquire 30 punctual, Acquire 30 punctual, Acquire 1 punctual]
                      (0, pool2_new))) \<subseteq> {worker1} \<and>
   handed_out (history [Acquire 30 punctual, Acquire 30 punctual] (0, pool2_new))
     = [worker1, worker1] \<and>
   update_model alone (takes_then_gives 1) never_fails None None pool2 =
     Some (Inr (), \<lparr>pool_size = 2, model_name = ''m'', device_map = ''cpu'', use_llmlingua2 = True,
                    pool = [worker0, worker0], available = [1, 0, 1], in_use = {}\<rparr>) \<and>
   set (handed_out (history [Acquire 30 punctual, Acquire 30 punctual, Acquire 30 punctual]
      (0, \<lparr>pool_size = 2, model_name = ''m'', device_map = ''cpu'', use_llmlingua2 = True,
           pool = [worker0, worker0], available = [1, 0, 1], in_use = {}\<rparr>))) \<subseteq> {worker0}"
proof -
  have d2: "in_use (seen (gives_during 1 1) 0 2 (set_config (Some ''m2'') None pool2_taken)) = {}"
    by (simp add: numeral_2_eq_2 set_config_def release_compressor_def)
  have d1: "in_use (seen (gives_during 1 1) 0 1 (set_config (Some ''m2'') None pool2_taken)) \<noteq> {}"
    by (simp add: set_config_def)
  have nofail: "\<forall>i\<in>{0..pool_size pool2_taken - 1}. \<not> never_fails i" by simp
  note u = update_model_rebuilds_with_new_configuration
    [of "gives_during 1 1" "Some ''m2''" None pool2_taken never_fails quiet pool2_new]
  have ret: "\<exists>s'. update_model (gives_during 1 1) quiet never_fails (Some ''m2'') None pool2_taken
               = Some (Inr (), s')"
    using u d2 nofail by blast
  have p: "pool pool2_new = replicate (nat (pool_size pool2_taken)) worker1"
    using u update_pool2_taken by simp
  have clean: "available pool2_new = [0..pool_size pool2_taken - 1]" "in_use pool2_new = {}"
    using u update_pool2_taken by blast+
  have every: "\<forall>calls t. set (handed_out (history calls (t, pool2_new)))
          \<subseteq> {PromptCompressor (model_name pool2_new) (device_map pool2_new) (use_llmlingua2 pool2_new)}"
    using u update_pool2_taken by blast
  have cfg: "PromptCompressor (model_name pool2_new) (device_map pool2_new) (use_llmlingua2 pool2_new)
               = worker1"
    by simp
  have h: "set (handed_out (history [Acquire 30 punctual, Acquire 30 punctual, Acquire 1 punctual]
                      (0, pool2_new))) \<subseteq> {worker1}"
    using every unfolding cfg by blast
  have e: "handed_out (history [Acquire 30 punctual, Acquire 30 punctual] (0, pool2_new))
             = [worker1, worker1]"
    by (simp add: get_compressor_def take_instance_def getitem_def punctual_def)
  let ?raced = "\<lparr>pool_size = 2, model_name = ''m'', device_map = ''cpu'', use_llmlingua2 = True,
                 pool = [worker0, worker0], available = [1, 0, 1], in_use = {}\<rparr>"
  note r = update_model_rebuilds_with_new_configuration
    [of alone None None pool2 never_fails "takes_then_gives 1" ?raced]
  have every_raced: "\<forall>calls t. set (handed_out (history calls (t, ?raced)))
          \<subseteq> {PromptCompressor (model_name ?raced) (device_map ?raced) (use_llmlingua2 ?raced)}"
    using r raced_update_pool2 by blast
  have cfg_raced: "PromptCompressor (model_name ?raced) (device_map ?raced) (use_llmlingua2 ?raced)
               = worker0"
    by simp
  have hr: "set (handed_out (history [Acquire 30 punctual, Acquire 30 punctual, Acquire 30 punctual]
                      (0, ?raced))) \<subseteq> {worker0}"
    using every_raced unfolding cfg_raced by blast
  show ?thesis
    using d2 d1 update_pool2_taken p clean h e raced_update_pool2 hr by simp
qed

subsection \<open>The status snapshot\<close>

text \<open>
  C7. \<^verbatim>\<open>get_status\<close> returns the capacity, the length of \<^verbatim>\<open>available\<close>, the size of
  \<^verbatim>\<open>in_use\<close>, the model name and the device map, and leaves the pool as it was. On a pool
  of capacity 4 that satisfies the invariant and has exactly one index in use the three
  numbers are 4, 3 and 1.
\<close>

theorem status_snapshot:
  "get_status s =
     ([(''pool_size'', PyInt (pool_size s)),
       (''available'', PyInt (int (length (available s)))),
       (''in_use'', PyInt (int (card (in_use s)))),
       (''model_name'', PyStr (model_name s)),
       (''device_map'', PyStr (device_map s))], s) \<and>
   (pool_inv s \<and> pool_size s = 4 \<and> card (in_use s) = 1 \<longrightarrow>
      fst (get_status s) =
        [(''pool_size'', PyInt 4), (''available'', PyInt 3), (''in_use'', PyInt 1),
         (''model_name'', PyStr (model_name s)), (''device_map'', PyStr (device_map s))])"
proof (intro conjI impI)
  show "get_status s =
     ([(''pool_size'', PyInt (pool_size s)),
       (''available'', PyInt (int (length (available s)))),
       (''in_use'', PyInt (int (card (in_use s)))),
       (''model_name'', PyStr (model_name s)),
       (''device_map'', PyStr (device_map s))], s)"
    by (simp add: get_status_def)
next
  assume a: "pool_inv s \<and> pool_size s = 4 \<and> card (in_use s) = 1"
  then have "int (length (available s)) + int (card (in_use s)) = pool_size s"
    using pool_inv_count by blast
  then have "int (length (available s)) = 3" using a by simp
  then show "fst (get_status s) =
        [(''pool_size'', PyInt 4), (''available'', PyInt 3), (''in_use'', PyInt 1),
         (''model_name'', PyStr (model_name s)), (''device_map'', PyStr (device_map s))]"
    using a by (simp add: get_status_def)
qed

theorem status_snapshot_witness:
  "pool_inv pool4_one_taken \<and> pool_size pool4_one_taken = 4 \<and> card (in_use pool4_one_taken) = 1 \<and>
   get_status pool4_one_taken =
     ([(''pool_size'', PyInt 4), (''available'', PyInt 3), (''in_use'', PyInt 1),
       (''model_name'', PyStr ''m''), (''device_map'', PyStr ''cpu'')], pool4_one_taken)"
proof -
  have h: "pool_inv pool4_one_taken \<and> pool_size pool4_one_taken = 4 \<and> card (in_use pool4_one_taken) = 1"
    using inv_pool4_one_taken by simp
  from status_snapshot [of pool4_one_taken] h
  have "fst (get_status pool4_one_taken) =
        [(''pool_size'', PyInt 4), (''available'', PyInt 3), (''in_use'', PyInt 1),
         (''model_name'', PyStr (model_name pool4_one_taken)),
         (''device_map'', PyStr (device_map pool4_one_taken))]"
    and "snd (get_status pool4_one_taken) = pool4_one_taken"
    by (blast, simp)
  then show ?thesis
    using h by (simp add: prod_eq_iff)
qed

subsection \<open>How long an acquisition waits on an empty pool\<close>




subsection \<open>Acquiring with a timeout that is not positive\<close>



section \<open>Properties of the request parameters\<close>

subsection \<open>Auxiliary facts on dictionaries and the six assignments\<close>

lemma map_of_setitem: "map_of (setitem k v kvs) = (map_of kvs)(k \<mapsto> v)"
  by (induction kvs) auto

lemma keys_setitem: "fst ` set (setitem k v kvs) = insert k (fst ` set kvs)"
proof -
  have "fst ` set (setitem k v kvs) = dom (map_of (setitem k v kvs))"
    by (simp add: dom_map_of_conv_image_fst)
  also have "\<dots> = insert k (dom (map_of kvs))"
    by (simp add: map_of_setitem)
  also have "\<dots> = insert k (fst ` set kvs)"
    by (simp add: dom_map_of_conv_image_fst)
  finally show ?thesis .
qed

lemma unit_interval_check:
  "(float_less (Finite 0) r \<and> float_le r (Finite 1)) =
     (case r of Finite x \<Rightarrow> 0 < x \<and> x \<le> 1 | _ \<Rightarrow> False)"
  by (cases r) (auto simp: float_le_def)

lemma positive_check:
  "float_less (Finite 0) r = (case r of Finite x \<Rightarrow> 0 < x | PosInf \<Rightarrow> True | _ \<Rightarrow> False)"
  by (cases r) auto

lemma lookup_add_rate:
  "map_of (add_rate request p) k =
     (if k = ''rate'' \<and> (\<exists>x. rate request = Some (Finite x) \<and> 0 < x \<and> x \<le> 1)
      then map_option PyFloat (rate request) else map_of p k)"
  unfolding add_rate_def unit_interval_check
  by (auto simp: map_of_setitem split: option.splits pyfloat.splits)

lemma lookup_add_context_level_rate:
  "map_of (add_context_level_rate request p) k =
     (if k = ''context_level_rate'' \<and> (\<exists>x. context_level_rate request = Some (Finite x) \<and> 0 < x \<and> x \<le> 1)
      then map_option PyFloat (context_level_rate request) else map_of p k)"
  unfolding add_context_level_rate_def unit_interval_check
  by (auto simp: map_of_setitem split: option.splits pyfloat.splits)

lemma lookup_add_target_context_level_rate:
  "map_of (add_target_context_level_rate request p) k =
     (if k = ''target_context_level_rate'' \<and>
         (target_context_level_rate request = Some PosInf \<or>
          (\<exists>x. target_context_level_rate request = Some (Finite x) \<and> 0 < x))
      then map_option PyFloat (target_context_level_rate request) else map_of p k)"
  unfolding add_target_context_level_rate_def positive_check
  by (auto simp: map_of_setitem split: option.splits pyfloat.splits)

lemma lookup_add_target_token:
  "map_of (add_target_token request p) k =
     (if k = ''target_token'' \<and> (\<exists>n. target_token request = Some n \<and> 0 < n)
      then map_option PyInt (target_token request) else map_of p k)"
  unfolding add_target_token_def
  by (auto simp: map_of_setitem split: option.splits)

lemma lookup_add_context_level_target_token:
  "map_of (add_context_level_target_token request p) k =
     (if k = ''context_level_target_token'' \<and> (\<exists>n. context_level_target_token request = Some n \<and> 0 < n)
      then map_option PyInt (context_level_target_token request) else map_of p k)"
  unfolding add_context_level_target_token_def
  by (auto simp: map_of_setitem split: option.splits)

lemma lookup_add_chunk_end_tokens:
  "map_of (add_chunk_end_tokens request p) k =
     (if k = ''chunk_end_tokens'' \<and> (\<exists>c. chunk_end_tokens request = Some c \<and> c \<noteq> [])
      then map_option PyStr (chunk_end_tokens request) else map_of p k)"
  unfolding add_chunk_end_tokens_def
  by (auto simp: map_of_setitem split: option.splits)

lemmas lookup_stages = lookup_add_rate lookup_add_target_token lookup_add_target_context_level_rate
  lookup_add_context_level_rate lookup_add_context_level_target_token lookup_add_chunk_end_tokens

lemma distinct_setitem: "distinct (map fst kvs) \<Longrightarrow> distinct (map fst (setitem k v kvs))"
  by (induction kvs) (auto simp: keys_setitem)

lemma stage_add_rate:
  "fst ` set (add_rate request p) \<subseteq> insert ''rate'' (fst ` set p) \<and>
   (distinct (map fst p) \<longrightarrow> distinct (map fst (add_rate request p)))"
  unfolding add_rate_def
  by (cases "rate request") (simp_all add: keys_setitem distinct_setitem subset_insertI)

lemma stage_add_target_token:
  "fst ` set (add_target_token request p) \<subseteq> insert ''target_token'' (fst ` set p) \<and>
   (distinct (map fst p) \<longrightarrow> distinct (map fst (add_target_token request p)))"
  unfolding add_target_token_def
  by (cases "target_token request") (simp_all add: keys_setitem distinct_setitem subset_insertI)

lemma stage_add_target_context_level_rate:
  "fst ` set (add_target_context_level_rate request p)
     \<subseteq> insert ''target_context_level_rate'' (fst ` set p) \<and>
   (distinct (map fst p) \<longrightarrow> distinct (map fst (add_target_context_level_rate request p)))"
  unfolding add_target_context_level_rate_def
  by (cases "target_context_level_rate request")
    (simp_all add: keys_setitem distinct_setitem subset_insertI)

lemma stage_add_context_level_rate:
  "fst ` set (add_context_level_rate request p) \<subseteq> insert ''context_level_rate'' (fst ` set p) \<and>
   (distinct (map fst p) \<longrightarrow> distinct (map fst (add_context_level_rate request p)))"
  unfolding add_context_level_rate_def
  by (cases "context_level_rate request") (simp_all add: keys_setitem distinct_setitem subset_insertI)

lemma stage_add_context_level_target_token:
  "fst ` set (add_context_level_target_token request p)
     \<subseteq> insert ''context_level_target_token'' (fst ` set p) \<and>
   (distinct (map fst p) \<longrightarrow> distinct (map fst (add_context_level_target_token request p)))"
  unfolding add_context_level_target_token_def
  by (cases "context_level_target_token request")
    (simp_all add: keys_setitem distinct_setitem subset_insertI)

lemma stage_add_chunk_end_tokens:
  "fst ` set (add_chunk_end_tokens request p) \<subseteq> insert ''chunk_end_tokens'' (fst ` set p) \<and>
   (distinct (map fst p) \<longrightarrow> distinct (map fst (add_chunk_end_tokens request p)))"
  unfolding add_chunk_end_tokens_def
  by (cases "chunk_end_tokens request") (simp_all add: keys_setitem distinct_setitem subset_insertI)

lemma keys_build:
  "fst ` set (build_compression_params request) \<subseteq>
     {''rate'', ''target_token'', ''target_context_level_rate'', ''context_level_rate'',
      ''context_level_target_token'', ''chunk_end_tokens''}"
proof -
  let ?p1 = "add_rate request []"
  let ?p2 = "add_target_token request ?p1"
  let ?p3 = "add_target_context_level_rate request ?p2"
  let ?p4 = "add_context_level_rate request ?p3"
  let ?p5 = "add_context_level_target_token request ?p4"
  have 1: "fst ` set ?p1 \<subseteq> {''rate''}"
    using stage_add_rate [of request "[]"] by simp
  have 2: "fst ` set ?p2 \<subseteq> {''rate'', ''target_token''}"
    using stage_add_target_token [of request ?p1] 1 by blast
  have 3: "fst ` set ?p3 \<subseteq> {''rate'', ''target_token'', ''target_context_level_rate''}"
    using stage_add_target_context_level_rate [of request ?p2] 2 by blast
  have 4: "fst ` set ?p4 \<subseteq> {''rate'', ''target_token'', ''target_context_level_rate'',
      ''context_level_rate''}"
    using stage_add_context_level_rate [of request ?p3] 3 by blast
  have 5: "fst ` set ?p5 \<subseteq> {''rate'', ''target_token'', ''target_context_level_rate'',
      ''context_level_rate'', ''context_level_target_token''}"
    using stage_add_context_level_target_token [of request ?p4] 4 by blast
  have "fst ` set (add_chunk_end_tokens request ?p5) \<subseteq>
     {''rate'', ''target_token'', ''target_context_level_rate'', ''context_level_rate'',
      ''context_level_target_token'', ''chunk_end_tokens''}"
    using stage_add_chunk_end_tokens [of request ?p5] 5 by blast
  then show ?thesis
    unfolding build_compression_params_def Let_def .
qed

lemma distinct_build: "distinct (map fst (build_compression_params request))"
proof -
  let ?p1 = "add_rate request []"
  let ?p2 = "add_target_token request ?p1"
  let ?p3 = "add_target_context_level_rate request ?p2"
  let ?p4 = "add_context_level_rate request ?p3"
  let ?p5 = "add_context_level_target_token request ?p4"
  have 1: "distinct (map fst ?p1)"
    using stage_add_rate [of request "[]"] by simp
  have 2: "distinct (map fst ?p2)"
    using stage_add_target_token [of request ?p1] 1 by blast
  have 3: "distinct (map fst ?p3)"
    using stage_add_target_context_level_rate [of request ?p2] 2 by blast
  have 4: "distinct (map fst ?p4)"
    using stage_add_context_level_rate [of request ?p3] 3 by blast
  have 5: "distinct (map fst ?p5)"
    using stage_add_context_level_target_token [of request ?p4] 4 by blast
  have "distinct (map fst (add_chunk_end_tokens request ?p5))"
    using stage_add_chunk_end_tokens [of request ?p5] 5 by blast
  then show ?thesis
    unfolding build_compression_params_def Let_def .
qed

lemma lookup_rate:
  "map_of (build_compression_params request) ''rate'' =
     (case rate request of
        Some (Finite x) \<Rightarrow> if 0 < x \<and> x \<le> 1 then Some (PyFloat (Finite x)) else None
      | _ \<Rightarrow> None)"
  unfolding build_compression_params_def Let_def
  by (simp add: lookup_stages split: option.splits pyfloat.splits)

lemma lookup_target_token:
  "map_of (build_compression_params request) ''target_token'' =
     (case target_token request of
        Some n \<Rightarrow> if 0 < n then Some (PyInt n) else None
      | None \<Rightarrow> None)"
  unfolding build_compression_params_def Let_def
  by (simp add: lookup_stages split: option.splits)

lemma lookup_target_context_level_rate:
  "map_of (build_compression_params request) ''target_context_level_rate'' =
     (case target_context_level_rate request of
        Some (Finite x) \<Rightarrow> if 0 < x then Some (PyFloat (Finite x)) else None
      | Some PosInf \<Rightarrow> Some (PyFloat PosInf)
      | _ \<Rightarrow> None)"
  unfolding build_compression_params_def Let_def
  by (simp add: lookup_stages split: option.splits pyfloat.splits)

lemma lookup_context_level_rate:
  "map_of (build_compression_params request) ''context_level_rate'' =
     (case context_level_rate request of
        Some (Finite x) \<Rightarrow> if 0 < x \<and> x \<le> 1 then Some (PyFloat (Finite x)) else None
      | _ \<Rightarrow> None)"
  unfolding build_compression_params_def Let_def
  by (simp add: lookup_stages split: option.splits pyfloat.splits)

lemma lookup_context_level_target_token:
  "map_of (build_compression_params request) ''context_level_target_token'' =
     (case context_level_target_token request of
        Some n \<Rightarrow> if 0 < n then Some (PyInt n) else None
      | None \<Rightarrow> None)"
  unfolding build_compression_params_def Let_def
  by (simp add: lookup_stages split: option.splits)

lemma lookup_chunk_end_tokens:
  "map_of (build_compression_params request) ''chunk_end_tokens'' =
     (case chunk_end_tokens request of
        Some c \<Rightarrow> if c \<noteq> [] then Some (PyStr c) else None
      | None \<Rightarrow> None)"
  unfolding build_compression_params_def Let_def
  by (simp add: lookup_stages split: option.splits)

subsection \<open>Which keys the parameter dictionary holds\<close>

text \<open>
  C10. \<^verbatim>\<open>build_compression_params\<close> is a total function: no branch of it raises. The
  dictionary it returns holds a key exactly when the request field of that name is set and
  passes its check, and then maps the key to the field's value: \<^verbatim>\<open>rate\<close> and
  \<^verbatim>\<open>context_level_rate\<close> must be finite numbers \<open>x\<close> with \<open>0 < x \<le> 1\<close>;
  \<^verbatim>\<open>target_token\<close> and \<^verbatim>\<open>context_level_target_token\<close> must be positive integers;
  \<^verbatim>\<open>target_context_level_rate\<close> must be positive (a positive finite number or
  \<^verbatim>\<open>inf\<close>); \<^verbatim>\<open>chunk_end_tokens\<close> must not be the empty string. A field that is unset or
  fails its check (\<^verbatim>\<open>nan\<close> fails every check) is left out. The dictionary holds no other
  key, and no key twice.
\<close>

theorem build_compression_params_keys:
  "map_of (build_compression_params request) ''rate'' =
     (case rate request of
        Some (Finite x) \<Rightarrow> if 0 < x \<and> x \<le> 1 then Some (PyFloat (Finite x)) else None
      | _ \<Rightarrow> None) \<and>
   map_of (build_compression_params request) ''target_token'' =
     (case target_token request of
        Some n \<Rightarrow> if 0 < n then Some (PyInt n) else None
      | None \<Rightarrow> None) \<and>
   map_of (build_compression_params request) ''target_context_level_rate'' =
     (case target_context_level_rate request of
        Some (Finite x) \<Rightarrow> if 0 < x then Some (PyFloat (Finite x)) else None
      | Some PosInf \<Rightarrow> Some (PyFloat PosInf)
      | _ \<Rightarrow> None) \<and>
   map_of (build_compression_params request) ''context_level_rate'' =
     (case context_level_rate request of
        Some (Finite x) \<Rightarrow> if 0 < x \<and> x \<le> 1 then Some (PyFloat (Finite x)) else None
      | _ \<Rightarrow> None) \<and>
   map_of (build_compression_params request) ''context_level_target_token'' =
     (case context_level_target_token request of
        Some n \<Rightarrow> if 0 < n then Some (PyInt n) else None
      | None \<Rightarrow> None) \<and>
   map_of (build_compression_params request) ''chunk_end_tokens'' =
     (case chunk_end_tokens request of
        Some c \<Rightarrow> if c \<noteq> [] then Some (PyStr c) else None
      | None \<Rightarrow> None) \<and>
   fst ` set (build_compression_params request) \<subseteq>
     {''rate'', ''target_token'', ''target_context_level_rate'', ''context_level_rate'',
      ''context_level_target_token'', ''chunk_end_tokens''} \<and>
   distinct (map fst (build_compression_params request))"
  by (intro conjI lookup_rate lookup_target_token lookup_target_context_level_rate
      lookup_context_level_rate lookup_context_level_target_token lookup_chunk_end_tokens
      keys_build distinct_build)

theorem build_compression_params_keys_witness:
  "build_compression_params
     \<lparr>prompts = Some [''some text''], rate = Some (Finite (1 / 2)), target_token = Some (- 3),
      target_context_level_rate = Some PosInf, context_level_rate = Some NaN,
      context_level_target_token = None, chunk_end_tokens = Some [], query = None\<rparr>
     = [(''rate'', PyFloat (Finite (1 / 2))), (''target_context_level_rate'', PyFloat PosInf)] \<and>
   map_of (build_compression_params
     \<lparr>prompts = Some [''some text''], rate = Some (Finite (1 / 2)), target_token = Some (- 3),
      target_context_level_rate = Some PosInf, context_level_rate = Some NaN,
      context_level_target_token = None, chunk_end_tokens = Some [], query = None\<rparr>) ''rate''
     = Some (PyFloat (Finite (1 / 2))) \<and>
   map_of (build_compression_params
     \<lparr>prompts = Some [''some text''], rate = Some (Finite (1 / 2)), target_token = Some (- 3),
      target_context_level_rate = Some PosInf, context_level_rate = Some NaN,
      context_level_target_token = None, chunk_end_tokens = Some [], query = None\<rparr>) ''target_token''
     = None"
proof -
  let ?r = "\<lparr>prompts = Some [''some text''], rate = Some (Finite (1 / 2)), target_token = Some (- 3),
      target_context_level_rate = Some PosInf, context_level_rate = Some NaN,
      context_level_target_token = None, chunk_end_tokens = Some [], query = None\<rparr>"
  have "build_compression_params ?r
     = [(''rate'', PyFloat (Finite (1 / 2))), (''target_context_level_rate'', PyFloat PosInf)]"
    by (simp add: build_compression_params_def add_rate_def add_target_token_def
        add_target_context_level_rate_def add_context_level_rate_def
        add_context_level_target_token_def add_chunk_end_tokens_def float_le_def)
  moreover have "map_of (build_compression_params ?r) ''rate'' = Some (PyFloat (Finite (1 / 2)))"
    "map_of (build_compression_params ?r) ''target_token'' = None"
    using build_compression_params_keys [of ?r] by simp_all
  ultimately show ?thesis by simp
qed

end
